theory Spec2Isabelle
  imports Main "HOL-Library.Sublist"
begin

section \<open>The relational store behind \<open>worker/Program.cs\<close>\<close>

text \<open>
  The worker talks to one table, created by \<open>OpenDbConnection\<close>:
  \<^verbatim>\<open>CREATE TABLE IF NOT EXISTS votes (id VARCHAR(255) NOT NULL UNIQUE, vote VARCHAR(255) NOT NULL)\<close>.
  A row is a pair \<open>(id, vote)\<close>; the table is the list of its rows in insertion order, so
  that "one row per voter" is a property to be proved and not a property of the type.
  The database is \<open>None\<close> as long as the relation \<open>votes\<close> does not exist.
  Strings are lists of characters (a \<open>char\<close> is one character, and the width of a
  column counts characters); C# strings passed as parameters are never \<open>null\<close> here.
\<close>

type_synonym row = "string \<times> string"
type_synonym table = "row list"
type_synonym database = "table option"

datatype ConnectionState = Closed | Open | Broken

datatype DbError =
  UndefinedTable | CharacterNotInRepertoire | StringDataRightTruncation | UniqueViolation

text \<open>
  The exceptions that matter to \<open>Main\<close>. Only \<open>DbException\<close> is caught by \<open>UpdateVote\<close>;
  all of them are caught by the handler at the end of \<open>Main\<close>, which returns 1.
\<close>

datatype exn = DbException DbError | InvalidOperationException | JsonReaderException

text \<open>
  Storing a string in a \<open>VARCHAR(255)\<close> column: a string of at most 255 characters is
  stored as it is; a longer one is an error, unless all the excess characters are
  blanks, in which case it is cut to 255 characters.
\<close>

definition varchar255 :: "string \<Rightarrow> DbError + string" where
  "varchar255 s =
     (if length s \<le> 255 then Inr s
      else if list_all (\<lambda>c. c = CHR '' '') (drop 255 s) then Inr (take 255 s)
      else Inl StringDataRightTruncation)"

text \<open>
  A text value cannot hold the character U+0000: a statement with a parameter that
  contains it is rejected when the parameter is read, before anything is executed.
\<close>

definition has_NUL :: "string \<Rightarrow> bool" where
  "has_NUL s = (CHR 0x00 \<in> set s)"

text \<open>The values that the table stores as they are.\<close>

definition storable :: "string \<Rightarrow> bool" where
  "storable s = (length s \<le> 255 \<and> \<not> has_NUL s)"

definition ids :: "table \<Rightarrow> string list" where
  "ids t = map fst t"

text \<open>
  The four statements the worker sends; the two writes carry \<open>@id\<close> and \<open>@vote\<close>.
  A statement either fails and changes nothing or succeeds. Both writes fail on a
  parameter that contains U+0000. The insert coerces both
  values to their columns and fails on an \<open>id\<close> that is already there; the update
  coerces the new \<open>vote\<close> and assigns it to every row whose \<open>id\<close> equals \<open>@id\<close>
  (compared as it is, with no coercion), also when there is no such row.
\<close>

datatype statement =
    CREATE_TABLE_IF_NOT_EXISTS
  | SELECT_1
  | INSERT_INTO_votes string string
  | UPDATE_votes_SET_vote string string

definition set_vote :: "string \<Rightarrow> string \<Rightarrow> row \<Rightarrow> row" where
  "set_vote voterId v r = (if fst r = voterId then (fst r, v) else r)"

fun execute :: "statement \<Rightarrow> database \<Rightarrow> DbError + database" where
  "execute CREATE_TABLE_IF_NOT_EXISTS db =
     (case db of None \<Rightarrow> Inr (Some []) | Some t \<Rightarrow> Inr (Some t))"
| "execute SELECT_1 db = Inr db"
| "execute (INSERT_INTO_votes voterId vote) db =
     (case db of
        None \<Rightarrow> Inl UndefinedTable
      | Some t \<Rightarrow>
          if has_NUL voterId \<or> has_NUL vote then Inl CharacterNotInRepertoire
          else
            (case varchar255 voterId of
               Inl e \<Rightarrow> Inl e
             | Inr i \<Rightarrow>
                 (case varchar255 vote of
                    Inl e \<Rightarrow> Inl e
                  | Inr v \<Rightarrow>
                      if i \<in> set (ids t) then Inl UniqueViolation
                      else Inr (Some (t @ [(i, v)])))))"
| "execute (UPDATE_votes_SET_vote voterId vote) db =
     (case db of
        None \<Rightarrow> Inl UndefinedTable
      | Some t \<Rightarrow>
          if has_NUL voterId \<or> has_NUL vote then Inl CharacterNotInRepertoire
          else
            (case varchar255 vote of
               Inl e \<Rightarrow> Inl e
             | Inr v \<Rightarrow> Inr (Some (map (set_vote voterId v) t))))"

text \<open>
  \<open>command.ExecuteNonQuery()\<close>: a command whose connection is not open throws
  \<open>InvalidOperationException\<close>; otherwise the statement runs, and a statement that fails
  throws a \<open>DbException\<close> and leaves the database as it was. A connection that has
  dropped is one whose object no longer reports \<open>Open\<close>.
\<close>

definition ExecuteNonQuery :: "ConnectionState \<Rightarrow> statement \<Rightarrow> database \<Rightarrow> exn + database" where
  "ExecuteNonQuery st q db =
     (if st \<noteq> Open then Inl InvalidOperationException
      else case execute q db of Inl e \<Rightarrow> Inl (DbException e) | Inr db' \<Rightarrow> Inr db')"

text \<open>
  \<open>UpdateVote\<close> (Program.cs, lines 183-202): the insert is tried first; a
  \<open>DbException\<close> from it, whatever its cause, is caught and the update is run on the same
  command. An exception of another class, or one thrown by the update, leaves
  \<open>UpdateVote\<close> (the \<open>finally\<close> block only disposes the command).
\<close>

definition UpdateVote :: "ConnectionState \<Rightarrow> string \<Rightarrow> string \<Rightarrow> database \<Rightarrow> exn + database" where
  "UpdateVote connection voterId vote db =
     (case ExecuteNonQuery connection (INSERT_INTO_votes voterId vote) db of
        Inr db' \<Rightarrow> Inr db'
      | Inl (DbException _) \<Rightarrow> ExecuteNonQuery connection (UPDATE_votes_SET_vote voterId vote) db
      | Inl e \<Rightarrow> Inl e)"

text \<open>
  The invariant of the table: every stored value fits its column and no two rows have
  the same \<open>id\<close>.
\<close>

definition table_ok :: "table \<Rightarrow> bool" where
  "table_ok t =
     (distinct (ids t) \<and> list_all (\<lambda>r. length (fst r) \<le> 255 \<and> length (snd r) \<le> 255) t)"

definition db_ok :: "database \<Rightarrow> bool" where
  "db_ok d = (case d of None \<Rightarrow> True | Some t \<Rightarrow> table_ok t)"

definition rows :: "database \<Rightarrow> table" where
  "rows d = (case d of None \<Rightarrow> [] | Some t \<Rightarrow> t)"

text \<open>The rows a voter has in the table.\<close>

definition rows_of :: "string \<Rightarrow> database \<Rightarrow> table" where
  "rows_of voter d = filter (\<lambda>r. fst r = voter) (rows d)"

text \<open>
  \<open>keeps d d'\<close>: going from store \<open>d\<close> to store \<open>d'\<close> maintains the invariant and
  removes no row: the \<open>id\<close> column of \<open>d\<close> is an initial segment of that of \<open>d'\<close>.
\<close>

definition keeps :: "database \<Rightarrow> database \<Rightarrow> bool" where
  "keeps d d' = ((db_ok d \<longrightarrow> db_ok d') \<and> prefix (ids (rows d)) (ids (rows d')))"

section \<open>The worker: \<open>worker/Program.cs\<close>\<close>

subsection \<open>Queue entries and their decoding\<close>

text \<open>
  The Redis list \<open>votes\<close> holds texts. \<open>Encoded i v\<close> is the JSON text of an object
  whose string fields \<open>voter_id\<close> and \<open>vote\<close> are \<open>i\<close> and \<open>v\<close> (what the intake's
  \<open>json.dumps\<close> writes); \<open>Malformed s\<close> is a text \<open>s\<close> that is not JSON, on which
  \<open>JsonConvert.DeserializeAnonymousType\<close> throws.
\<close>

datatype entry = Encoded string string | Malformed string

record vote_definition =
  vote :: string
  voter_id :: string

fun DeserializeAnonymousType :: "entry \<Rightarrow> exn + vote_definition" where
  "DeserializeAnonymousType (Encoded i v) = Inr \<lparr>vote = v, voter_id = i\<rparr>"
| "DeserializeAnonymousType (Malformed s) = Inl JsonReaderException"

subsection \<open>The state the worker acts on\<close>

text \<open>
  \<open>NpgsqlConnection\<close> objects live on a heap, addressed by the order of their creation,
  because \<open>pgsql\<close> and the connection of \<open>keepAliveCommand\<close> are two references that
  \<open>Main\<close> assigns separately. \<open>dbConnectionString\<close> is represented by the serial number
  of the credential it carries (0 is the static password), \<open>minted\<close> counts the calls of
  \<open>GenerateAuthToken\<close>. The table and the Redis list are the two external resources.
  Times are ticks of 100 nanoseconds, as \<open>DateTime\<close> and \<open>TimeSpan\<close> count them.
\<close>

record world =
  heap :: "nat \<Rightarrow> ConnectionState"
  allocated :: nat
  pgsql :: nat
  keepAliveCommand :: nat
  minted :: nat
  dbConnectionString :: nat
  lastTokenRefresh :: int
  db :: database
  votes :: "entry list"
  console :: "string list"

text \<open>
  What the environment decides in one iteration of the loop: the two readings of the
  clock (lines 86 and 100), whether the store connection has dropped since the last
  iteration (its object then reports \<open>Broken\<close>), whether the Redis multiplexer reports
  connected, and the outcomes of the connection attempts made by the retry loops.
\<close>

datatype attempt = Accepted | Refused_SocketException | Refused_DbException

record tick =
  UtcNow :: int
  UtcNow_reopened :: int
  connection_lost :: bool
  IsConnected :: bool
  redis_attempts :: "bool list"
  db_attempts :: "attempt list"

text \<open>
  A call returns a value, throws, or never returns (a retry loop that is refused as long
  as the environment has been described).
\<close>

datatype 'a result = Returns 'a world | Throws exn world | Never world

definition and_then :: "'a result \<Rightarrow> ('a \<Rightarrow> world \<Rightarrow> 'b result) \<Rightarrow> 'b result" where
  "and_then r f = (case r of Returns a s \<Rightarrow> f a s | Throws x s \<Rightarrow> Throws x s | Never s \<Rightarrow> Never s)"

definition WriteLine :: "string \<Rightarrow> world \<Rightarrow> world" where
  "WriteLine l s = s\<lparr>console := console s @ [l]\<rparr>"

definition FromMinutes :: "int \<Rightarrow> int" where
  "FromMinutes m = m * 600000000"

definition tokenRefreshInterval :: int where
  "tokenRefreshInterval = FromMinutes 10"

subsection \<open>\<open>OpenDbConnection\<close> and \<open>OpenRedisConnection\<close>\<close>

text \<open>
  The \<open>while (true)\<close> of \<open>OpenDbConnection\<close> (lines 131-149): every refused attempt is
  logged and followed by a sleep; the loop is left only by an accepted attempt. The
  result is the lines written, or \<open>None\<close> when no attempt is accepted.
\<close>

fun waiting_for_db :: "attempt list \<Rightarrow> string list option" where
  "waiting_for_db [] = None"
| "waiting_for_db (Accepted # rest) = Some []"
| "waiting_for_db (Refused_SocketException # rest) =
     map_option ((#) ''Waiting for db'') (waiting_for_db rest)"
| "waiting_for_db (Refused_DbException # rest) =
     map_option ((#) ''Waiting for db: DbException'') (waiting_for_db rest)"

definition OpenDbConnection :: "attempt list \<Rightarrow> world \<Rightarrow> nat result" where
  "OpenDbConnection attempts s =
     (case waiting_for_db attempts of
        None \<Rightarrow> Never s
      | Some lines \<Rightarrow>
          (let connection = allocated s;
               s1 = s\<lparr>heap := (heap s)(connection := Open), allocated := Suc connection,
                      console := console s @ lines @ [''Connected to db'']\<rparr>
           in case ExecuteNonQuery (heap s1 connection) CREATE_TABLE_IF_NOT_EXISTS (db s1) of
                Inl x \<Rightarrow> Throws x s1
              | Inr d \<Rightarrow> Returns connection (s1\<lparr>db := d\<rparr>)))"

fun waiting_for_redis :: "bool list \<Rightarrow> string list option" where
  "waiting_for_redis [] = None"
| "waiting_for_redis (True # rest) = Some [''Connecting to redis'']"
| "waiting_for_redis (False # rest) =
     map_option (\<lambda>ls. ''Connecting to redis'' # ''Waiting for redis'' # ls) (waiting_for_redis rest)"

definition OpenRedisConnection :: "bool list \<Rightarrow> world \<Rightarrow> unit result" where
  "OpenRedisConnection attempts s =
     (case waiting_for_redis attempts of
        None \<Rightarrow> Never s
      | Some lines \<Rightarrow> Returns () (s\<lparr>console := console s @ ''Connecting to redis at host:port'' # lines\<rparr>))"

subsection \<open>One iteration of the loop of \<open>Main\<close> (lines 67-118)\<close>

definition quoted :: "string \<Rightarrow> string" where
  "quoted x = CHR 0x27 # x @ [CHR 0x27]"

definition reconnect_redis :: "tick \<Rightarrow> world \<Rightarrow> unit result" where
  "reconnect_redis e s =
     (if \<not> IsConnected e
      then OpenRedisConnection (redis_attempts e) (WriteLine ''Reconnecting Redis'' s)
      else Returns () s)"

text \<open>Lines 86-101: the refresh of the token, reached only with a decoded record.\<close>

definition refresh_token :: "bool \<Rightarrow> tick \<Rightarrow> world \<Rightarrow> unit result" where
  "refresh_token useIamAuth e s =
     (if useIamAuth \<and> UtcNow e - lastTokenRefresh s > tokenRefreshInterval
      then
        (let s1 = WriteLine ''Refreshing IAM auth token...'' s;
             s2 = s1\<lparr>heap := (heap s1)(pgsql s1 := Closed)\<rparr>;
             s3 = s2\<lparr>minted := Suc (minted s2), dbConnectionString := Suc (minted s2)\<rparr>
         in and_then (OpenDbConnection (db_attempts e) s3)
              (\<lambda>connection s4. Returns ()
                 (s4\<lparr>pgsql := connection, keepAliveCommand := connection,
                      lastTokenRefresh := UtcNow_reopened e\<rparr>)))
      else Returns () s)"

text \<open>Lines 103-112: reconnect, or else write.\<close>

definition reconnect_or_write :: "tick \<Rightarrow> vote_definition \<Rightarrow> world \<Rightarrow> unit result" where
  "reconnect_or_write e v s =
     (if heap s (pgsql s) \<noteq> Open
      then and_then (OpenDbConnection (db_attempts e) (WriteLine ''Reconnecting DB'' s))
             (\<lambda>connection s1. Returns () (s1\<lparr>pgsql := connection\<rparr>))
      else (case UpdateVote (heap s (pgsql s)) (voter_id v) (vote v) (db s) of
              Inl x \<Rightarrow> Throws x s
            | Inr d \<Rightarrow> Returns () (s\<lparr>db := d\<rparr>)))"

text \<open>Lines 82-112: what is done with a record that was popped.\<close>

definition process :: "bool \<Rightarrow> tick \<Rightarrow> entry \<Rightarrow> world \<Rightarrow> unit result" where
  "process useIamAuth e json s =
     (case DeserializeAnonymousType json of
        Inl x \<Rightarrow> Throws x s
      | Inr v \<Rightarrow>
          and_then
            (refresh_token useIamAuth e
               (WriteLine (''Processing vote for '' @ quoted (vote v) @ '' by '' @ quoted (voter_id v)) s))
            (\<lambda>_. reconnect_or_write e v))"

text \<open>
  Lines 114-117. \<open>keepAliveCommand\<close> runs on the connection it was created from,
  which need not be the one \<open>pgsql\<close> refers to now.
\<close>

definition keep_alive :: "world \<Rightarrow> unit result" where
  "keep_alive s =
     (case ExecuteNonQuery (heap s (keepAliveCommand s)) SELECT_1 (db s) of
        Inl x \<Rightarrow> Throws x s
      | Inr d \<Rightarrow> Returns () (s\<lparr>db := d\<rparr>))"

text \<open>
  What happened to the store connection since the last iteration: if it dropped, the
  object that \<open>pgsql\<close> refers to reports \<open>Broken\<close> from now on.
\<close>

definition drop_connection :: "tick \<Rightarrow> world \<Rightarrow> world" where
  "drop_connection e s =
     (if connection_lost e then s\<lparr>heap := (heap s)(pgsql s := Broken)\<rparr> else s)"

text \<open>
  The body of the \<open>while (true)\<close>: the Redis connection is checked, the head of the
  list \<open>votes\<close> is popped, and the record is processed, or the keep-alive command is
  executed when the list is empty. The sleep of 100 ms has no effect on the state.
\<close>

definition iteration :: "bool \<Rightarrow> tick \<Rightarrow> world \<Rightarrow> unit result" where
  "iteration useIamAuth e s =
     and_then (reconnect_redis e (drop_connection e s))
       (\<lambda>_ s1. case votes s1 of
                  [] \<Rightarrow> keep_alive s1
                | json # rest \<Rightarrow> process useIamAuth e json (s1\<lparr>votes := rest\<rparr>))"

subsection \<open>\<open>Main\<close>\<close>

text \<open>
  The loop has no exit of its own: it is run here for as many iterations as the
  environment is described, and is then still \<open>Running\<close>. An exception thrown inside
  it reaches the handler of lines 120-124, which writes it and returns 1.
\<close>

datatype outcome = Running world | Exited int world | Blocked world

fun ToString :: "exn \<Rightarrow> string" where
  "ToString (DbException e) = ''Npgsql.PostgresException''"
| "ToString InvalidOperationException = ''System.InvalidOperationException''"
| "ToString JsonReaderException = ''Newtonsoft.Json.JsonReaderException''"

definition handler :: "exn \<Rightarrow> world \<Rightarrow> outcome" where
  "handler ex s = Exited 1 (WriteLine (ToString ex) s)"

fun loop :: "bool \<Rightarrow> tick list \<Rightarrow> world \<Rightarrow> outcome" where
  "loop useIamAuth [] s = Running s"
| "loop useIamAuth (e # es) s =
     (case iteration useIamAuth e s of
        Returns _ s1 \<Rightarrow> loop useIamAuth es s1
      | Throws ex s1 \<Rightarrow> handler ex s1
      | Never s1 \<Rightarrow> Blocked s1)"

text \<open>
  Lines 19-65. \<open>boot\<close> is the environment at start: the attempts of the two first
  connections, the clock, and the contents of the store and of the queue. The
  configuration is read from the process environment; what matters of it below is
  \<open>useIamAuth\<close>. Both output streams are written to \<open>console\<close>, and the host names
  and ports that some messages insert are left out.
\<close>

record boot =
  boot_db_attempts :: "attempt list"
  boot_redis_attempts :: "bool list"
  boot_UtcNow :: int
  boot_db :: database
  boot_votes :: "entry list"

definition power_on :: "boot \<Rightarrow> world" where
  "power_on b =
     \<lparr>heap = (\<lambda>_. Closed), allocated = 0, pgsql = 0, keepAliveCommand = 0, minted = 0,
      dbConnectionString = 0, lastTokenRefresh = 0, db = boot_db b, votes = boot_votes b,
      console = []\<rparr>"

definition startup :: "bool \<Rightarrow> boot \<Rightarrow> unit result" where
  "startup useIamAuth b =
     (let s0 = power_on b;
          s1 = (if useIamAuth
                then WriteLine ''Using IAM authentication for RDS''
                       (s0\<lparr>minted := Suc (minted s0), dbConnectionString := Suc (minted s0)\<rparr>)
                else WriteLine ''Using password authentication for database'' s0)
      in and_then (OpenDbConnection (boot_db_attempts b) s1)
           (\<lambda>connection s2.
              and_then (OpenRedisConnection (boot_redis_attempts b) (s2\<lparr>pgsql := connection\<rparr>))
                (\<lambda>_ s3. Returns ()
                   (s3\<lparr>keepAliveCommand := pgsql s3, lastTokenRefresh := boot_UtcNow b\<rparr>))))"

definition Main :: "bool \<Rightarrow> boot \<Rightarrow> tick list \<Rightarrow> outcome" where
  "Main useIamAuth b es =
     (case startup useIamAuth b of
        Returns _ s \<Rightarrow> loop useIamAuth es s
      | Throws ex s \<Rightarrow> handler ex s
      | Never s \<Rightarrow> Blocked s)"

subsection \<open>Reading results\<close>

fun world_of :: "'a result \<Rightarrow> world" where
  "world_of (Returns a s) = s"
| "world_of (Throws x s) = s"
| "world_of (Never s) = s"

fun final :: "outcome \<Rightarrow> world" where
  "final (Running s) = s"
| "final (Exited n s) = s"
| "final (Blocked s) = s"

fun exit_code :: "outcome \<Rightarrow> int option" where
  "exit_code (Running s) = None"
| "exit_code (Exited n s) = Some n"
| "exit_code (Blocked s) = None"

fun running :: "outcome \<Rightarrow> bool" where
  "running (Running s) = True"
| "running (Exited n s) = False"
| "running (Blocked s) = False"

text \<open>
  An iteration in which the store connection stays up: it is not lost, a Redis
  reconnection (if one is needed) is accepted, and so is the reopening of the store
  connection that a token refresh makes.
\<close>

definition healthy :: "bool \<Rightarrow> tick \<Rightarrow> bool" where
  "healthy useIamAuth e =
     (\<not> connection_lost e \<and> (IsConnected e \<or> True \<in> set (redis_attempts e)) \<and>
      (\<not> useIamAuth \<or> Accepted \<in> set (db_attempts e)))"

subsection \<open>Inputs used in the examples\<close>

text \<open>
  \<open>cold_boot q\<close>: the store has no table yet, the queue holds \<open>q\<close>, both endpoints
  accept the first connection, the clock reads 0. \<open>quiet now\<close>: an iteration at time
  \<open>now\<close> in which nothing happens to the connections and the store accepts a reopening.
\<close>

definition cold_boot :: "entry list \<Rightarrow> boot" where
  "cold_boot q =
     \<lparr>boot_db_attempts = [Accepted], boot_redis_attempts = [True], boot_UtcNow = 0,
      boot_db = None, boot_votes = q\<rparr>"

definition quiet :: "int \<Rightarrow> tick" where
  "quiet now =
     \<lparr>UtcNow = now, UtcNow_reopened = now, connection_lost = False, IsConnected = True,
      redis_attempts = [], db_attempts = [Accepted]\<rparr>"

text \<open>\<open>lost now\<close>: an iteration at time \<open>now\<close> before which the store connection dropped.\<close>

definition lost :: "int \<Rightarrow> tick" where
  "lost now = (quiet now)\<lparr>connection_lost := True\<rparr>"

section \<open>The aggregator: \<open>result/server.js\<close>\<close>

subsection \<open>The query and its result\<close>

text \<open>
  \<^verbatim>\<open>SELECT vote, COUNT(id) AS count FROM votes GROUP BY vote\<close> returns one row per
  distinct value of the column \<open>vote\<close>, with the number of rows that hold it. The
  driver hands the count (a \<open>bigint\<close>) over as its decimal text, which is why the code
  applies \<open>parseInt\<close>. The order of the groups is not fixed by SQL; here it is the order
  in which \<open>remdups\<close> leaves the values.
\<close>

type_synonym count_row = "string \<times> string"

definition digit_char :: "nat \<Rightarrow> char" where
  "digit_char d = char_of (48 + d)"

fun decimal :: "nat \<Rightarrow> string" where
  "decimal n = (if n < 10 then [digit_char n] else decimal (n div 10) @ [digit_char (n mod 10)])"

declare decimal.simps [simp del]

definition COUNT :: "string \<Rightarrow> table \<Rightarrow> nat" where
  "COUNT c t = length (filter (\<lambda>r. snd r = c) t)"

definition SELECT_vote_COUNT :: "table \<Rightarrow> count_row list" where
  "SELECT_vote_COUNT t = map (\<lambda>c. (c, decimal (COUNT c t))) (remdups (map snd t))"

text \<open>
  \<open>client.query\<close> calls back with an error or with a result: an error when the
  connection is down (\<open>up\<close> is false) or the relation does not exist.
\<close>

definition client_query :: "bool \<Rightarrow> database \<Rightarrow> string + count_row list" where
  "client_query up d =
     (if \<not> up then Inl ''Connection terminated unexpectedly''
      else case d of
             None \<Rightarrow> Inl ''error: relation votes does not exist''
           | Some t \<Rightarrow> Inr (SELECT_vote_COUNT t))"

subsection \<open>\<open>parseInt\<close>\<close>

text \<open>
  JavaScript's \<open>parseInt\<close> with no radix, on texts of ASCII characters: leading white
  space is skipped, a sign is read, a prefix \<open>0x\<close> or \<open>0X\<close> selects radix 16, and the
  longest run of digits of the radix is the value; with no digit the result is \<open>NaN\<close>.
  A JavaScript number is a double: it holds every integer of magnitude up to \<open>2^53\<close>
  exactly, and \<open>Num n\<close> is such an integer. Beyond that the value of the text is
  rounded to a double; \<open>Large\<close> stands for such a number, whichever it is.
\<close>

datatype number = Num int | NaN | Large

definition to_number :: "int \<Rightarrow> number" where
  "to_number n = (if \<bar>n\<bar> \<le> 2 ^ 53 then Num n else Large)"

definition is_white :: "char \<Rightarrow> bool" where
  "is_white c = (of_char c \<in> {9, 10, 11, 12, 13, 32 :: nat})"

definition digit_value :: "char \<Rightarrow> nat" where
  "digit_value c =
     (let n = of_char c :: nat in
      if 48 \<le> n \<and> n \<le> 57 then n - 48
      else if 97 \<le> n \<and> n \<le> 122 then n - 87
      else if 65 \<le> n \<and> n \<le> 90 then n - 55
      else 36)"

definition digits_value :: "nat \<Rightarrow> string \<Rightarrow> nat" where
  "digits_value radix ds = foldl (\<lambda>n c. n * radix + digit_value c) 0 ds"

definition parse_digits :: "nat \<Rightarrow> string \<Rightarrow> nat option" where
  "parse_digits radix s =
     (let ds = takeWhile (\<lambda>c. digit_value c < radix) s
      in if ds = [] then None else Some (digits_value radix ds))"

definition parse_unsigned :: "string \<Rightarrow> nat option" where
  "parse_unsigned s =
     (if take 2 s = ''0x'' \<or> take 2 s = ''0X'' then parse_digits 16 (drop 2 s)
      else parse_digits 10 s)"

definition parseInt :: "string \<Rightarrow> number" where
  "parseInt s =
     (let s1 = dropWhile is_white s;
          negative = (take 1 s1 = ''-'');
          s2 = (if take 1 s1 = ''-'' \<or> take 1 s1 = ''+'' then drop 1 s1 else s1)
      in case parse_unsigned s2 of
           None \<Rightarrow> NaN
         | Some n \<Rightarrow> to_number (if negative then - int n else int n))"

text \<open>The characters \<open>0\<close> to \<open>9\<close>, of which \<open>decimal\<close> makes its texts.\<close>

definition is_digit :: "char \<Rightarrow> bool" where
  "is_digit c = (48 \<le> (of_char c :: nat) \<and> (of_char c :: nat) \<le> 57)"

subsection \<open>\<open>collectVotesFromResult\<close> and \<open>getVotes\<close>\<close>

text \<open>
  The object \<open>votes\<close> is a map from the names of its own properties to numbers; it
  starts as \<open>{a: 0, b: 0}\<close> and \<open>forEach\<close> makes one assignment per row, in the order of
  the rows. The assignment \<open>votes[key] = n\<close> of a number sets the own property \<open>key\<close>,
  except for the key \<open>__proto__\<close>: that assignment goes to the setter inherited from
  \<open>Object.prototype\<close>, which ignores a value that is not an object, and the object
  stays as it is.
\<close>

type_synonym snapshot = "string \<rightharpoonup> number"

definition assign :: "snapshot \<Rightarrow> string \<Rightarrow> number \<Rightarrow> snapshot" where
  "assign object key n = (if key = ''__proto__'' then object else object(key \<mapsto> n))"

definition collectVotesFromResult :: "count_row list \<Rightarrow> snapshot" where
  "collectVotesFromResult result_rows =
     foldl (\<lambda>votes row. assign votes (fst row) (parseInt (snd row)))
       [''a'' \<mapsto> Num 0, ''b'' \<mapsto> Num 0] result_rows"

text \<open>
  The grouping of Tally Rows by choice, in the words of the specification: the
  mapping from each choice that some row holds to the number of rows that hold it.
\<close>

definition spec_grouping :: "table \<Rightarrow> snapshot" where
  "spec_grouping t = (\<lambda>c. if c \<in> snd ` set t then Some (Num (int (COUNT c t))) else None)"

text \<open>
  The state of the aggregator: what \<open>console.error\<close> has written, the \<open>scores\<close> events
  emitted to all sockets (each carries the snapshot that \<open>JSON.stringify\<close> serialises),
  and the delay of the timer set by \<open>setTimeout\<close>, if one is pending.
\<close>

record aggregator =
  errors :: "string list"
  emitted :: "snapshot list"
  pending :: "nat option"

text \<open>
  \<open>getVotes\<close> (lines 97-108), given what the query calls back with: an error is
  logged, a result is collected and emitted; in both cases the next call is scheduled.
\<close>

definition getVotes :: "string + count_row list \<Rightarrow> aggregator \<Rightarrow> aggregator" where
  "getVotes answer s =
     (let s1 = (case answer of
                  Inl err \<Rightarrow> s\<lparr>errors := errors s @ [''Error performing query: '' @ err]\<rparr>
                | Inr result \<Rightarrow> s\<lparr>emitted := emitted s @ [collectVotesFromResult result]\<rparr>)
      in s1\<lparr>pending := Some 1000\<rparr>)"

text \<open>
  The cycles that follow: each pending timer fires and calls \<open>getVotes\<close> again, with the
  answer the store gives in that cycle. With no timer pending, nothing runs any more.
\<close>

fun timers :: "(string + count_row list) list \<Rightarrow> aggregator \<Rightarrow> aggregator" where
  "timers [] s = s"
| "timers (answer # answers) s =
     (case pending s of
        None \<Rightarrow> s
      | Some delay \<Rightarrow> timers answers (getVotes answer (s\<lparr>pending := None\<rparr>)))"

text \<open>The first call is made when the database connection is established.\<close>

definition aggregate :: "(string + count_row list) list \<Rightarrow> aggregator" where
  "aggregate answers =
     (case answers of
        [] \<Rightarrow> \<lparr>errors = [], emitted = [], pending = None\<rparr>
      | answer # rest \<Rightarrow> timers rest (getVotes answer \<lparr>errors = [], emitted = [], pending = None\<rparr>))"

section \<open>The intake: \<open>vote/app.py\<close>\<close>

text \<open>
  The handler \<open>hello\<close> of the route \<open>/\<close>. A request has a method, may carry the cookie
  \<open>voter_id\<close> and may carry the form field \<open>vote\<close>. The state is the global
  \<open>ERROR_SIM_ENABLED\<close>, the Redis list \<open>votes\<close> with the reachability of Redis, and the
  application log.
\<close>

datatype http_method = GET | POST

record request =
  http_method :: http_method
  cookie_voter_id :: "string option"
  form_vote :: "string option"

record intake =
  ERROR_SIM_ENABLED :: bool
  redis_reachable :: bool
  redis_votes :: "entry list"
  app_log :: "string list"

datatype py_exception = SimulatedError | BadRequestKeyError | RedisConnectionError

record response =
  rendered_vote :: "string option"
  set_cookie_voter_id :: string

text \<open>
  \<open>hex(random.getrandbits(64))[2:-1]\<close>: the hexadecimal digits of the random number
  after \<open>0x\<close>, without the last one.
\<close>

definition hex_char :: "nat \<Rightarrow> char" where
  "hex_char d = (if d < 10 then char_of (48 + d) else char_of (87 + d))"

fun hex_digits :: "nat \<Rightarrow> string" where
  "hex_digits n = (if n < 16 then [hex_char n] else hex_digits (n div 16) @ [hex_char (n mod 16)])"

declare hex_digits.simps [simp del]

definition hex :: "nat \<Rightarrow> string" where
  "hex n = ''0x'' @ hex_digits n"

definition new_voter_id :: "nat \<Rightarrow> string" where
  "new_voter_id getrandbits = butlast (drop 2 (hex getrandbits))"

definition hello :: "nat \<Rightarrow> request \<Rightarrow> intake \<Rightarrow> (py_exception + response) \<times> intake" where
  "hello getrandbits req s =
     (let voter = (case cookie_voter_id req of
                     None \<Rightarrow> new_voter_id getrandbits
                   | Some c \<Rightarrow> if c = [] then new_voter_id getrandbits else c)
      in if http_method req = POST then
           (if ERROR_SIM_ENABLED s
            then (Inl SimulatedError,
                  s\<lparr>app_log := app_log s @ [''SIMULATED ERROR: Error simulation is ON'']\<rparr>)
            else case form_vote req of
                   None \<Rightarrow> (Inl BadRequestKeyError, s)
                 | Some v \<Rightarrow>
                     (let s1 = s\<lparr>app_log := app_log s @ [''Received vote for '' @ v]\<rparr>
                      in if redis_reachable s1
                         then (Inr \<lparr>rendered_vote = Some v, set_cookie_voter_id = voter\<rparr>,
                               s1\<lparr>redis_votes := redis_votes s1 @ [Encoded voter v]\<rparr>)
                         else (Inl RedisConnectionError, s1)))
         else (Inr \<lparr>rendered_vote = None, set_cookie_voter_id = voter\<rparr>, s))"

section \<open>Properties of the worker\<close>

subsection \<open>Columns and rows\<close>

lemma varchar255_fits: "length s \<le> 255 \<Longrightarrow> varchar255 s = Inr s"
  by (simp add: varchar255_def)

lemma varchar255_length: "varchar255 s = Inr s' \<Longrightarrow> length s' \<le> 255"
  by (auto simp: varchar255_def split: if_splits)

lemma set_vote_fst: "fst (set_vote i v r) = fst r"
  by (simp add: set_vote_def)

lemma set_vote_twice: "set_vote i v (set_vote i v r) = set_vote i v r"
  by (simp add: set_vote_def)

lemma ids_set_vote: "ids (map (set_vote i v) t) = ids t"
  by (simp add: ids_def set_vote_fst cong: map_cong)

lemma set_vote_absent: "i \<notin> set (ids t) \<Longrightarrow> map (set_vote i v) t = t"
  by (induction t) (auto simp: set_vote_def ids_def)

lemma long_id_absent: "table_ok t \<Longrightarrow> 255 < length i \<Longrightarrow> i \<notin> set (ids t)"
  by (auto simp: table_ok_def ids_def list_all_iff)

subsection \<open>Applying the same write twice\<close>

lemma insert_then_again:
  assumes "table_ok t" and "execute (INSERT_INTO_votes i v) (Some t) = Inr d"
  shows "execute (INSERT_INTO_votes i v) d = Inl UniqueViolation \<and>
         execute (UPDATE_votes_SET_vote i v) d = Inr d"
proof -
  from assms(2) obtain i' v' where i': "varchar255 i = Inr i'" and v': "varchar255 v = Inr v'"
    and new: "i' \<notin> set (ids t)" and d: "d = Some (t @ [(i', v')])"
    and nn: "\<not> has_NUL i" "\<not> has_NUL v"
    by (auto split: sum.splits if_splits)
  have "i \<notin> set (ids t)"
  proof (cases "length i \<le> 255")
    case True
    with i' new show ?thesis by (simp add: varchar255_fits)
  next
    case False
    with assms(1) show ?thesis by (simp add: long_id_absent)
  qed
  then have "map (set_vote i v') t = t" by (rule set_vote_absent)
  moreover have "set_vote i v' (i', v') = (i', v')" by (simp add: set_vote_def)
  ultimately show ?thesis using i' v' d nn by (simp add: ids_def)
qed

lemma update_then_again:
  assumes "execute (INSERT_INTO_votes i v) (Some t) = Inl e"
    and "execute (UPDATE_votes_SET_vote i v) (Some t) = Inr d"
  shows "(\<exists>e'. execute (INSERT_INTO_votes i v) d = Inl e') \<and>
         (length i \<le> 255 \<longrightarrow> execute (INSERT_INTO_votes i v) d = Inl UniqueViolation) \<and>
         execute (UPDATE_votes_SET_vote i v) d = Inr d"
proof -
  from assms(2) obtain v' where v': "varchar255 v = Inr v'" and d: "d = Some (map (set_vote i v') t)"
    and nn: "\<not> has_NUL i" "\<not> has_NUL v"
    by (auto split: sum.splits if_splits)
  from assms(1) v' nn have why: "(\<exists>e'. varchar255 i = Inl e') \<or> (\<exists>i'. varchar255 i = Inr i' \<and> i' \<in> set (ids t))"
    by (auto split: sum.splits if_splits)
  then have "\<exists>e'. execute (INSERT_INTO_votes i v) d = Inl e'"
    using v' d nn by (auto simp: ids_set_vote)
  moreover have "execute (INSERT_INTO_votes i v) d = Inl UniqueViolation" if "length i \<le> 255"
  proof -
    from that have "varchar255 i = Inr i" by (rule varchar255_fits)
    with why v' d nn show ?thesis by (auto simp: ids_set_vote)
  qed
  moreover have "execute (UPDATE_votes_SET_vote i v) d = Inr d"
    using v' d nn by (simp add: set_vote_twice)
  ultimately show ?thesis by blast
qed

text \<open>
  Claim C2. The upsert is idempotent: when \<open>UpdateVote\<close> has returned on a store that
  satisfies the table's constraints, a second \<open>UpdateVote\<close> with the same voter and the
  same choice returns too and leaves the store exactly as the first left it; in that
  second call the insert is rejected (on the unique key, when the voter identity fits
  the column), and it is the update fallback that runs.
\<close>

theorem UpdateVote_idempotent:
  assumes ok: "db_ok d0" and first: "UpdateVote c voterId v d0 = Inr d"
  shows "UpdateVote c voterId v d = Inr d \<and>
         (\<exists>e. ExecuteNonQuery c (INSERT_INTO_votes voterId v) d = Inl (DbException e)) \<and>
         (length voterId \<le> 255 \<longrightarrow>
            ExecuteNonQuery c (INSERT_INTO_votes voterId v) d = Inl (DbException UniqueViolation))"
proof -
  from first have c: "c = Open"
    by (auto simp: UpdateVote_def ExecuteNonQuery_def split: if_splits)
  from first c obtain t where t: "d0 = Some t"
    by (cases d0) (auto simp: UpdateVote_def ExecuteNonQuery_def)
  with ok have tok: "table_ok t" by (simp add: db_ok_def)
  show ?thesis
  proof (cases "execute (INSERT_INTO_votes voterId v) (Some t)")
    case (Inr d')
    with first c t have "d = d'" by (simp add: UpdateVote_def ExecuteNonQuery_def)
    with insert_then_again [OF tok Inr] c show ?thesis
      by (simp add: UpdateVote_def ExecuteNonQuery_def)
  next
    case (Inl e)
    with first c t have "execute (UPDATE_votes_SET_vote voterId v) (Some t) = Inr d"
      by (simp add: UpdateVote_def ExecuteNonQuery_def del: execute.simps split: sum.splits)
    from update_then_again [OF Inl this] c show ?thesis
      by (auto simp: UpdateVote_def ExecuteNonQuery_def)
  qed
qed

theorem UpdateVote_idempotent_witness:
  "db_ok (Some [(''abc'', ''b'')]) \<and>
   UpdateVote Open ''abc'' ''a'' (Some [(''abc'', ''b'')]) = Inr (Some [(''abc'', ''a'')]) \<and>
   UpdateVote Open ''abc'' ''a'' (Some [(''abc'', ''a'')]) = Inr (Some [(''abc'', ''a'')]) \<and>
   ExecuteNonQuery Open (INSERT_INTO_votes ''abc'' ''a'') (Some [(''abc'', ''a'')])
          = Inl (DbException UniqueViolation)"
proof -
  have ok: "db_ok (Some [(''abc'', ''b'')])"
    by (simp add: db_ok_def table_ok_def ids_def)
  have first: "UpdateVote Open ''abc'' ''a'' (Some [(''abc'', ''b'')]) = Inr (Some [(''abc'', ''a'')])"
    by (simp add: UpdateVote_def ExecuteNonQuery_def varchar255_def has_NUL_def ids_def set_vote_def)
  from UpdateVote_idempotent [OF ok first] ok first show ?thesis by simp
qed

subsection \<open>Writes of values that fit the columns\<close>

lemma UpdateVote_fits:
  "storable i \<Longrightarrow> storable v \<Longrightarrow>
   UpdateVote Open i v (Some t) =
     Inr (Some (if i \<in> set (ids t) then map (set_vote i v) t else t @ [(i, v)]))"
  by (simp add: UpdateVote_def ExecuteNonQuery_def varchar255_fits storable_def)

lemma filter_absent: "i \<notin> set (ids t) \<Longrightarrow> filter (\<lambda>r. fst r = i) t = []"
  by (induction t) (auto simp: ids_def)

lemma filter_set_vote:
  "distinct (ids t) \<Longrightarrow> i \<in> set (ids t) \<Longrightarrow>
   filter (\<lambda>r. fst r = i) (map (set_vote i v) t) = [(i, v)]"
proof (induction t)
  case Nil
  then show ?case by (simp add: ids_def)
next
  case (Cons r t)
  show ?case
  proof (cases "fst r = i")
    case True
    with Cons.prems have "i \<notin> set (ids t)" by (auto simp: ids_def)
    then have "filter (\<lambda>r. fst r = i) (map (set_vote i v) t) = []"
      by (simp add: filter_absent ids_set_vote)
    moreover have "set_vote i v r = (i, v)" using True by (simp add: set_vote_def)
    ultimately show ?thesis by simp
  next
    case False
    with Cons show ?thesis by (auto simp: ids_def set_vote_def)
  qed
qed

lemma rows_of_written:
  assumes "table_ok t"
  shows "rows_of i (Some (if i \<in> set (ids t) then map (set_vote i v) t else t @ [(i, v)])) = [(i, v)]"
  using assms by (simp add: rows_of_def rows_def table_ok_def filter_absent filter_set_vote)

lemma table_ok_written:
  assumes "table_ok t" "length i \<le> 255" "length v \<le> 255"
  shows "table_ok (if i \<in> set (ids t) then map (set_vote i v) t else t @ [(i, v)])"
proof -
  have "list_all (\<lambda>r. length (fst r) \<le> 255 \<and> length (snd r) \<le> 255) (map (set_vote i v) t)"
    using assms by (auto simp: table_ok_def list_all_iff set_vote_def)
  moreover have "distinct (ids (map (set_vote i v) t))"
    using assms by (simp add: table_ok_def ids_set_vote)
  moreover have "i \<notin> set (ids t) \<Longrightarrow> table_ok (t @ [(i, v)])"
    using assms by (simp add: table_ok_def ids_def)
  ultimately show ?thesis by (simp add: table_ok_def)
qed

subsection \<open>Connections that are accepted\<close>

lemma waiting_for_redis_accepted:
  "True \<in> set as \<Longrightarrow> \<exists>ls. waiting_for_redis as = Some ls"
  by (induction as rule: waiting_for_redis.induct) auto

lemma waiting_for_db_accepted:
  "Accepted \<in> set as \<Longrightarrow> \<exists>ls. waiting_for_db as = Some ls"
  by (induction as rule: waiting_for_db.induct) auto

lemma reconnect_redis_returns:
  assumes "IsConnected e \<or> True \<in> set (redis_attempts e)"
  shows "\<exists>ls. reconnect_redis e s = Returns () (s\<lparr>console := ls\<rparr>)"
proof (cases "IsConnected e")
  case True
  then have "reconnect_redis e s = Returns () (s\<lparr>console := console s\<rparr>)"
    by (simp add: reconnect_redis_def)
  then show ?thesis by blast
next
  case False
  with assms obtain ls where "waiting_for_redis (redis_attempts e) = Some ls"
    using waiting_for_redis_accepted by blast
  with False have "reconnect_redis e s = Returns ()
      (s\<lparr>console := console s @ ''Reconnecting Redis'' # ''Connecting to redis at host:port'' # ls\<rparr>)"
    by (simp add: reconnect_redis_def OpenRedisConnection_def WriteLine_def)
  then show ?thesis by blast
qed

lemma OpenDbConnection_returns:
  assumes "Accepted \<in> set as"
  shows "\<exists>ls. OpenDbConnection as s =
           Returns (allocated s)
             (s\<lparr>heap := (heap s)(allocated s := Open), allocated := Suc (allocated s),
                console := ls, db := Some (rows (db s))\<rparr>)"
proof -
  from assms obtain ls where "waiting_for_db as = Some ls"
    using waiting_for_db_accepted by blast
  then have "OpenDbConnection as s =
           Returns (allocated s)
             (s\<lparr>heap := (heap s)(allocated s := Open), allocated := Suc (allocated s),
                console := console s @ ls @ [''Connected to db''], db := Some (rows (db s))\<rparr>)"
    by (cases "db s") (simp_all add: OpenDbConnection_def ExecuteNonQuery_def rows_def Let_def)
  then show ?thesis by blast
qed

lemma refresh_token_keeps_open:
  assumes "\<not> useIamAuth \<or> Accepted \<in> set (db_attempts e)"
    and "heap s (pgsql s) = Open" and "db s = Some t"
  shows "\<exists>s'. refresh_token useIamAuth e s = Returns () s' \<and> heap s' (pgsql s') = Open \<and>
              db s' = Some t \<and> votes s' = votes s"
proof (cases "useIamAuth \<and> UtcNow e - lastTokenRefresh s > tokenRefreshInterval")
  case True
  let ?s3 = "(WriteLine ''Refreshing IAM auth token...'' s)
               \<lparr>heap := (heap (WriteLine ''Refreshing IAM auth token...'' s))(pgsql s := Closed),
                minted := Suc (minted s), dbConnectionString := Suc (minted s)\<rparr>"
  from True assms(1) have "Accepted \<in> set (db_attempts e)" by simp
  from OpenDbConnection_returns [OF this, of ?s3] obtain ls where
    "OpenDbConnection (db_attempts e) ?s3 =
       Returns (allocated ?s3)
         (?s3\<lparr>heap := (heap ?s3)(allocated ?s3 := Open), allocated := Suc (allocated ?s3),
               console := ls, db := Some (rows (db ?s3))\<rparr>)" ..
  with True assms(3) show ?thesis
    by (simp add: refresh_token_def Let_def and_then_def WriteLine_def rows_def)
next
  case False
  with assms show ?thesis by (auto simp: refresh_token_def)
qed

subsection \<open>Draining the queue of one voter\<close>

lemma iteration_writes:
  assumes q: "votes s = Encoded i v # rest" and h: "healthy useIamAuth e"
    and op: "heap s (pgsql s) = Open" and d: "db s = Some t"
    and li: "storable i" and lv: "storable v"
  shows "\<exists>s'. iteration useIamAuth e s = Returns () s' \<and> votes s' = rest \<and>
              heap s' (pgsql s') = Open \<and>
              db s' = Some (if i \<in> set (ids t) then map (set_vote i v) t else t @ [(i, v)])"
proof -
  from h have nl: "\<not> connection_lost e" and r: "IsConnected e \<or> True \<in> set (redis_attempts e)"
    and a: "\<not> useIamAuth \<or> Accepted \<in> set (db_attempts e)"
    by (simp_all add: healthy_def)
  from nl have dc: "drop_connection e s = s" by (simp add: drop_connection_def)
  from reconnect_redis_returns [OF r, of s] obtain ls where
    rr: "reconnect_redis e s = Returns () (s\<lparr>console := ls\<rparr>)" ..
  let ?s1 = "WriteLine (''Processing vote for '' @ quoted v @ '' by '' @ quoted i) (s\<lparr>console := ls, votes := rest\<rparr>)"
  have "heap ?s1 (pgsql ?s1) = Open" "db ?s1 = Some t"
    using op d by (simp_all add: WriteLine_def)
  from refresh_token_keeps_open [OF a this] obtain s2 where
    rf: "refresh_token useIamAuth e ?s1 = Returns () s2" and op2: "heap s2 (pgsql s2) = Open"
    and d2: "db s2 = Some t" and q2: "votes s2 = votes ?s1" by blast
  have "iteration useIamAuth e s = reconnect_or_write e \<lparr>vote = v, voter_id = i\<rparr> s2"
    using dc rr q rf by (simp add: iteration_def and_then_def process_def)
  also have "\<dots> = Returns () (s2\<lparr>db := Some (if i \<in> set (ids t) then map (set_vote i v) t else t @ [(i, v)])\<rparr>)"
    using op2 d2 by (simp add: reconnect_or_write_def UpdateVote_fits [OF li lv])
  finally show ?thesis using op2 q2 by (simp add: WriteLine_def)
qed

lemma loop_drains:
  assumes "votes s = map (Encoded voter) cs" and "storable voter"
    and "\<forall>c\<in>set cs. storable c" and "length es = length cs"
    and "\<forall>e\<in>set es. healthy useIamAuth e"
    and "heap s (pgsql s) = Open" and "db s = Some t" and "table_ok t"
  shows "\<exists>s' t'. loop useIamAuth es s = Running s' \<and> votes s' = [] \<and>
           heap s' (pgsql s') = Open \<and> db s' = Some t' \<and> table_ok t' \<and>
           (if cs = [] then t' = t else rows_of voter (Some t') = [(voter, last cs)])"
  using assms
proof (induction cs arbitrary: es s t)
  case Nil
  then show ?case by simp
next
  case (Cons c cs)
  from Cons.prems(4) obtain e es' where es: "es = e # es'" and len: "length es' = length cs"
    by (cases es) auto
  from Cons.prems(5) es have h: "healthy useIamAuth e" and hs: "\<forall>e\<in>set es'. healthy useIamAuth e"
    by simp_all
  let ?t1 = "if voter \<in> set (ids t) then map (set_vote voter c) t else t @ [(voter, c)]"
  from Cons.prems(3) have lc: "storable c" and lcs: "\<forall>c\<in>set cs. storable c"
    by simp_all
  from Cons.prems(1) have q: "votes s = Encoded voter c # map (Encoded voter) cs" by simp
  from iteration_writes [OF q h Cons.prems(6) Cons.prems(7) Cons.prems(2) lc]
  obtain s1 where it: "iteration useIamAuth e s = Returns () s1"
    and q1: "votes s1 = map (Encoded voter) cs" and op1: "heap s1 (pgsql s1) = Open"
    and d1: "db s1 = Some ?t1" by blast
  have ok1: "table_ok ?t1"
    using Cons.prems(8) Cons.prems(2) lc by (intro table_ok_written) (simp_all add: storable_def)
  from Cons.IH [OF q1 Cons.prems(2) lcs len hs op1 d1 ok1]
  obtain s' t' where run: "loop useIamAuth es' s1 = Running s'"
    and q': "votes s' = []" and op': "heap s' (pgsql s') = Open"
    and d': "db s' = Some t'" and ok': "table_ok t'"
    and res: "if cs = [] then t' = ?t1 else rows_of voter (Some t') = [(voter, last cs)]"
    by blast
  have "rows_of voter (Some t') = [(voter, last (c # cs))]"
  proof (cases "cs = []")
    case True
    with res have "t' = ?t1" by simp
    moreover have "rows_of voter (Some ?t1) = [(voter, c)]"
      using Cons.prems(8) by (rule rows_of_written)
    ultimately show ?thesis using True by simp
  next
    case False
    with res show ?thesis by simp
  qed
  with it run q' op' d' ok' es show ?case by simp
qed

text \<open>
  Claim C1, as amended. Let the queue hold, in enqueue order, the Submissions of one
  voter, whose identity and choices are values the table stores as they are: each has
  at most 255 characters (the width of the columns) and none contains the character
  U+0000. One worker drains it, one record per iteration, and the store connection is
  open at each write: it is open at the start and every iteration is \<open>healthy\<close>. Then
  the loop is still running when the queue is empty, and the table holds exactly one
  row for that voter, with the choice of the last Submission.
\<close>

theorem last_write_wins:
  assumes "votes s = map (Encoded voter) choices" and "choices \<noteq> []"
    and "storable voter" and "\<forall>c\<in>set choices. storable c"
    and "length es = length choices" and "\<forall>e\<in>set es. healthy useIamAuth e"
    and "heap s (pgsql s) = Open" and "db s = Some t" and "table_ok t"
  shows "\<exists>s'. loop useIamAuth es s = Running s' \<and> votes s' = [] \<and>
              rows_of voter (db s') = [(voter, last choices)]"
proof -
  from loop_drains [OF assms(1,3,4,5,6,7,8,9)]
  obtain s' t' where "loop useIamAuth es s = Running s'" and "votes s' = []"
    and "db s' = Some t'"
    and "if choices = [] then t' = t else rows_of voter (Some t') = [(voter, last choices)]"
    by blast
  then show ?thesis using assms(2) by simp
qed

lemma startup_cold:
  "startup False (cold_boot q) =
     Returns ()
       \<lparr>heap = (\<lambda>_. Closed)(0 := Open), allocated = 1, pgsql = 0, keepAliveCommand = 0,
        minted = 0, dbConnectionString = 0, lastTokenRefresh = 0, db = Some [], votes = q,
        console = [''Using password authentication for database'', ''Connected to db'',
                   ''Connecting to redis at host:port'', ''Connecting to redis'']\<rparr>"
  by (simp add: startup_def cold_boot_def power_on_def WriteLine_def OpenDbConnection_def
      OpenRedisConnection_def ExecuteNonQuery_def and_then_def Let_def)

theorem last_write_wins_witness:
  "\<exists>s'. Main False (cold_boot [Encoded ''abc'' ''a'', Encoded ''abc'' ''b'']) [quiet 1, quiet 2]
          = Running s' \<and> votes s' = [] \<and> rows_of ''abc'' (db s') = [(''abc'', ''b'')]"
proof -
  let ?s = "world_of (startup False (cold_boot [Encoded ''abc'' ''a'', Encoded ''abc'' ''b'']))"
  have "\<exists>s'. loop False [quiet 1, quiet 2] ?s = Running s' \<and> votes s' = [] \<and>
              rows_of ''abc'' (db s') = [(''abc'', last [''a'', ''b''])]"
    by (rule last_write_wins [where t = "[]"])
       (simp_all add: startup_cold healthy_def quiet_def table_ok_def ids_def storable_def
          has_NUL_def)
  then show ?thesis by (simp add: Main_def startup_cold)
qed

text \<open>
  Claim C1, as stated, fails for a voter identity of 256 characters: the insert is
  rejected for its length, the update finds no row with that \<open>id\<close>, \<open>UpdateVote\<close>
  returns, and the voter has no row once the queue is drained.
\<close>

theorem long_voter_id_counterexample:
  "running (Main False (cold_boot [Encoded (replicate 256 CHR ''x'') ''a'']) [quiet 1]) \<and>
   heap (world_of (startup False (cold_boot [Encoded (replicate 256 CHR ''x'') ''a''])))
        (pgsql (world_of (startup False (cold_boot [Encoded (replicate 256 CHR ''x'') ''a''])))) = Open \<and>
   healthy False (quiet 1) \<and>
   votes (final (Main False (cold_boot [Encoded (replicate 256 CHR ''x'') ''a'']) [quiet 1])) = [] \<and>
   rows_of (replicate 256 CHR ''x'')
     (db (final (Main False (cold_boot [Encoded (replicate 256 CHR ''x'') ''a'']) [quiet 1]))) = []"
  by (simp add: Main_def startup_cold iteration_def drop_connection_def reconnect_redis_def
      quiet_def and_then_def process_def refresh_token_def reconnect_or_write_def
      UpdateVote_def ExecuteNonQuery_def varchar255_def has_NUL_def list_all_iff WriteLine_def
      rows_of_def rows_def healthy_def ids_def)

subsection \<open>Runs from a cold start\<close>

lemma startup_cold_iam:
  "startup True (cold_boot q) =
     Returns ()
       \<lparr>heap = (\<lambda>_. Closed)(0 := Open), allocated = 1, pgsql = 0, keepAliveCommand = 0,
        minted = 1, dbConnectionString = 1, lastTokenRefresh = 0, db = Some [], votes = q,
        console = [''Using IAM authentication for RDS'', ''Connected to db'',
                   ''Connecting to redis at host:port'', ''Connecting to redis'']\<rparr>"
  by (simp add: startup_def cold_boot_def power_on_def WriteLine_def OpenDbConnection_def
      OpenRedisConnection_def ExecuteNonQuery_def and_then_def Let_def)

lemmas run_defs = iteration_def drop_connection_def reconnect_redis_def
      quiet_def lost_def and_then_def process_def refresh_token_def reconnect_or_write_def keep_alive_def
      UpdateVote_def ExecuteNonQuery_def WriteLine_def handler_def OpenDbConnection_def Let_def

lemma drop_connection_fields:
  "votes (drop_connection e s) = votes s"
  "db (drop_connection e s) = db s"
  "lastTokenRefresh (drop_connection e s) = lastTokenRefresh s"
  "minted (drop_connection e s) = minted s"
  "allocated (drop_connection e s) = allocated s"
  "pgsql (drop_connection e s) = pgsql s"
  "keepAliveCommand (drop_connection e s) = keepAliveCommand s"
  by (simp_all add: drop_connection_def)

lemma OpenDbConnection_never:
  "Accepted \<notin> set as \<Longrightarrow> OpenDbConnection as s = Never s"
proof -
  have "Accepted \<notin> set as \<Longrightarrow> waiting_for_db as = None"
    by (induction as rule: waiting_for_db.induct) auto
  then show "Accepted \<notin> set as \<Longrightarrow> OpenDbConnection as s = Never s"
    by (simp add: OpenDbConnection_def)
qed

subsection \<open>A record that does not decode\<close>

text \<open>
  Claim C3, as amended. A queue record that fails to decode is popped and dropped, and
  nothing is written to the store for it; but the exception of the decoder is caught
  nowhere in the loop. It reaches the handler at the end of \<open>Main\<close>, which writes it
  to the console, and the process ends with exit code 1: the loop does not continue,
  whatever iterations the environment would still offer.
\<close>

theorem decode_failure_exits:
  assumes "votes s = Malformed x # rest" and "IsConnected e \<or> True \<in> set (redis_attempts e)"
  shows "\<exists>s'. loop useIamAuth (e # es) s = Exited 1 s' \<and> votes s' = rest \<and> db s' = db s \<and>
              last (console s') = ToString JsonReaderException"
proof -
  from reconnect_redis_returns [OF assms(2), of "drop_connection e s"] obtain ls where
    "reconnect_redis e (drop_connection e s) = Returns () (drop_connection e s\<lparr>console := ls\<rparr>)" ..
  with assms(1) show ?thesis
    by (simp add: iteration_def and_then_def process_def handler_def WriteLine_def
        drop_connection_def)
qed

theorem decode_failure_exits_witness:
  "\<exists>s'. Main False (cold_boot [Malformed ''{'', Encoded ''abc'' ''a'']) [quiet 1, quiet 2] = Exited 1 s' \<and>
        votes s' = [Encoded ''abc'' ''a''] \<and> db s' = Some [] \<and>
        last (console s') = ToString JsonReaderException"
proof -
  let ?s = "world_of (startup False (cold_boot [Malformed ''{'', Encoded ''abc'' ''a'']))"
  have "\<exists>s'. loop False [quiet 1, quiet 2] ?s = Exited 1 s' \<and> votes s' = [Encoded ''abc'' ''a''] \<and>
          db s' = db ?s \<and> last (console s') = ToString JsonReaderException"
    by (rule decode_failure_exits) (simp_all add: startup_cold quiet_def)
  then show ?thesis by (simp add: Main_def startup_cold)
qed

text \<open>
  Claim C3, as stated, fails: with a malformed record at the head of the queue the
  worker exits with code 1 in the first iteration and is not running afterwards.
\<close>

theorem decode_failure_counterexample:
  "exit_code (Main False (cold_boot [Malformed ''{'', Encoded ''abc'' ''a'']) [quiet 1, quiet 2]) = Some 1 \<and>
   \<not> running (Main False (cold_boot [Malformed ''{'', Encoded ''abc'' ''a'']) [quiet 1, quiet 2])"
  by (simp add: Main_def startup_cold run_defs)

subsection \<open>The keep-alive probe\<close>

text \<open>
  Claim C10. There are reachable states in which the worker ends. From a cold start
  with an empty queue, an iteration before which the store connection dropped runs the
  keep-alive command on a connection that is not open: \<open>ExecuteNonQuery\<close> throws, the
  handler writes the exception and the process exits with code 1. The same happens
  one iteration after a reconnection at line 107, since \<open>keepAliveCommand\<close> still
  belongs to the connection that broke.
\<close>

theorem keep_alive_failure_exits:
  "exit_code (Main False (cold_boot []) [lost 1]) = Some 1 \<and>
   votes (final (Main False (cold_boot []) [lost 1])) = [] \<and>
   heap (final (Main False (cold_boot []) [lost 1]))
        (pgsql (final (Main False (cold_boot []) [lost 1]))) = Broken \<and>
   last (console (final (Main False (cold_boot []) [lost 1]))) = ToString InvalidOperationException \<and>
   exit_code (Main False (cold_boot [Encoded ''abc'' ''a'']) [lost 1, quiet 2]) = Some 1 \<and>
   heap (final (Main False (cold_boot [Encoded ''abc'' ''a'']) [lost 1, quiet 2]))
        (keepAliveCommand (final (Main False (cold_boot [Encoded ''abc'' ''a'']) [lost 1, quiet 2]))) = Broken"
  by (simp add: Main_def startup_cold run_defs)

subsection \<open>Write, or reconnect\<close>

text \<open>
  Claim C5, as amended. Take an iteration that pops a decoded Submission and makes no
  token refresh, on a store whose table exists. If the store connection is open, the
  write \<open>UpdateVote\<close> is performed. If it is not open, the worker reopens it and does
  nothing else: the Submission is not written and not put back on the queue, both when
  the reopening is accepted (the connection is then open again) and when it never is.
\<close>

theorem write_or_reconnect:
  assumes q: "votes s = Encoded i v # rest"
    and r: "IsConnected e \<or> True \<in> set (redis_attempts e)"
    and d: "db s = Some t"
    and nr: "\<not> (useIamAuth \<and> UtcNow e - lastTokenRefresh s > tokenRefreshInterval)"
  shows "(heap s (pgsql s) = Open \<and> \<not> connection_lost e \<longrightarrow>
           (\<exists>s'. votes s' = rest \<and>
                 (case UpdateVote Open i v (Some t) of
                    Inr d' \<Rightarrow> iteration useIamAuth e s = Returns () s' \<and> db s' = d'
                  | Inl x \<Rightarrow> iteration useIamAuth e s = Throws x s' \<and> db s' = Some t))) \<and>
         ((heap s (pgsql s) \<noteq> Open \<or> connection_lost e) \<and> Accepted \<in> set (db_attempts e) \<longrightarrow>
           (\<exists>s'. iteration useIamAuth e s = Returns () s' \<and> votes s' = rest \<and> db s' = Some t \<and>
                 heap s' (pgsql s') = Open)) \<and>
         ((heap s (pgsql s) \<noteq> Open \<or> connection_lost e) \<and> Accepted \<notin> set (db_attempts e) \<longrightarrow>
           (\<exists>s'. iteration useIamAuth e s = Never s' \<and> votes s' = rest \<and> db s' = Some t))"
proof -
  let ?s0 = "drop_connection e s"
  from reconnect_redis_returns [OF r, of ?s0] obtain ls where
    rr: "reconnect_redis e ?s0 = Returns () (?s0\<lparr>console := ls\<rparr>)" ..
  let ?s1 = "WriteLine (''Processing vote for '' @ quoted v @ '' by '' @ quoted i)
               (?s0\<lparr>console := ls, votes := rest\<rparr>)"
  have it: "iteration useIamAuth e s = reconnect_or_write e \<lparr>vote = v, voter_id = i\<rparr> ?s1"
  proof -
    have "refresh_token useIamAuth e ?s1 = Returns () ?s1"
      using nr by (auto simp: refresh_token_def drop_connection_fields WriteLine_def)
    with rr q show ?thesis
      by (simp add: iteration_def and_then_def process_def drop_connection_fields)
  qed
  have s1: "votes ?s1 = rest" "db ?s1 = Some t" "allocated ?s1 = allocated s"
    using d by (simp_all add: WriteLine_def drop_connection_def)
  have st: "heap ?s1 (pgsql ?s1) = (if connection_lost e then Broken else heap s (pgsql s))"
    by (simp add: WriteLine_def drop_connection_def)
  have A: "\<exists>s'. votes s' = rest \<and>
                 (case UpdateVote Open i v (Some t) of
                    Inr d' \<Rightarrow> iteration useIamAuth e s = Returns () s' \<and> db s' = d'
                  | Inl x \<Rightarrow> iteration useIamAuth e s = Throws x s' \<and> db s' = Some t)"
    if "heap s (pgsql s) = Open" "\<not> connection_lost e"
  proof (cases "UpdateVote Open i v (Some t)")
    case (Inl x)
    with that it st s1 have "iteration useIamAuth e s = Throws x ?s1"
      by (simp add: reconnect_or_write_def)
    with Inl s1 show ?thesis by auto
  next
    case (Inr d')
    with that it st s1 have "iteration useIamAuth e s = Returns () (?s1\<lparr>db := d'\<rparr>)"
      by (simp add: reconnect_or_write_def)
    moreover have "votes (?s1\<lparr>db := d'\<rparr>) = rest" "db (?s1\<lparr>db := d'\<rparr>) = d'"
      by (simp_all add: WriteLine_def)
    ultimately show ?thesis using Inr by auto
  qed
  have closed: "heap ?s1 (pgsql ?s1) \<noteq> Open" if "heap s (pgsql s) \<noteq> Open \<or> connection_lost e"
    using that st by auto
  have B: "\<exists>s'. iteration useIamAuth e s = Returns () s' \<and> votes s' = rest \<and> db s' = Some t \<and>
                 heap s' (pgsql s') = Open"
    if "heap s (pgsql s) \<noteq> Open \<or> connection_lost e" "Accepted \<in> set (db_attempts e)"
  proof -
    let ?s2 = "WriteLine ''Reconnecting DB'' ?s1"
    from OpenDbConnection_returns [OF that(2), of ?s2] obtain ls' where
      "OpenDbConnection (db_attempts e) ?s2 =
         Returns (allocated ?s2)
           (?s2\<lparr>heap := (heap ?s2)(allocated ?s2 := Open), allocated := Suc (allocated ?s2),
                 console := ls', db := Some (rows (db ?s2))\<rparr>)" ..
    with it closed [OF that(1)] d show ?thesis
      by (simp add: reconnect_or_write_def and_then_def WriteLine_def rows_def drop_connection_def)
  qed
  have C: "\<exists>s'. iteration useIamAuth e s = Never s' \<and> votes s' = rest \<and> db s' = Some t"
    if "heap s (pgsql s) \<noteq> Open \<or> connection_lost e" "Accepted \<notin> set (db_attempts e)"
    using it closed [OF that(1)] OpenDbConnection_never [OF that(2)] d
    by (simp add: reconnect_or_write_def and_then_def WriteLine_def drop_connection_def)
  from A B C show ?thesis by blast
qed

theorem write_or_reconnect_witness:
  "(\<exists>s'. iteration False (quiet 1) (world_of (startup False (cold_boot [Encoded ''abc'' ''a''])))
           = Returns () s' \<and> votes s' = [] \<and> db s' = Some [(''abc'', ''a'')]) \<and>
   (\<exists>s'. iteration False (lost 1) (world_of (startup False (cold_boot [Encoded ''abc'' ''a''])))
           = Returns () s' \<and> votes s' = [] \<and> db s' = Some [] \<and> heap s' (pgsql s') = Open) \<and>
   (\<exists>s'. iteration False ((lost 1)\<lparr>db_attempts := [Refused_SocketException]\<rparr>)
            (world_of (startup False (cold_boot [Encoded ''abc'' ''a''])))
           = Never s' \<and> votes s' = [] \<and> db s' = Some [])"
proof -
  let ?s = "world_of (startup False (cold_boot [Encoded ''abc'' ''a'']))"
  have u: "UpdateVote Open ''abc'' ''a'' (Some []) = Inr (Some [(''abc'', ''a'')])"
    by (simp add: UpdateVote_def ExecuteNonQuery_def varchar255_def has_NUL_def ids_def)
  have q: "votes ?s = Encoded ''abc'' ''a'' # []" and d: "db ?s = Some []"
    and op: "heap ?s (pgsql ?s) = Open"
    by (simp_all add: startup_cold)
  have "IsConnected (quiet 1) \<or> True \<in> set (redis_attempts (quiet 1))"
    and nl: "\<not> connection_lost (quiet 1)"
    and "IsConnected (lost 1) \<or> True \<in> set (redis_attempts (lost 1))"
    and l: "connection_lost (lost 1)" and a: "Accepted \<in> set (db_attempts (lost 1))"
    and "IsConnected ((lost 1)\<lparr>db_attempts := [Refused_SocketException]\<rparr>) \<or>
         True \<in> set (redis_attempts ((lost 1)\<lparr>db_attempts := [Refused_SocketException]\<rparr>))"
    and "connection_lost ((lost 1)\<lparr>db_attempts := [Refused_SocketException]\<rparr>)"
    and "Accepted \<notin> set (db_attempts ((lost 1)\<lparr>db_attempts := [Refused_SocketException]\<rparr>))"
    by (simp_all add: quiet_def lost_def)
  with write_or_reconnect [OF q _ d, of "quiet 1" False]
       write_or_reconnect [OF q _ d, of "lost 1" False]
       write_or_reconnect [OF q _ d, of "(lost 1)\<lparr>db_attempts := [Refused_SocketException]\<rparr>" False]
       u op
  show ?thesis by auto
qed

text \<open>
  Claim C5, as stated, fails: the connection is lost, the reopening succeeds, and the
  Submission that was popped is in neither the table nor the queue.
\<close>

theorem reopened_but_lost_counterexample:
  "running (Main False (cold_boot [Encoded ''abc'' ''a'']) [lost 1]) \<and>
   heap (final (Main False (cold_boot [Encoded ''abc'' ''a'']) [lost 1]))
        (pgsql (final (Main False (cold_boot [Encoded ''abc'' ''a'']) [lost 1]))) = Open \<and>
   votes (final (Main False (cold_boot [Encoded ''abc'' ''a'']) [lost 1])) = [] \<and>
   db (final (Main False (cold_boot [Encoded ''abc'' ''a'']) [lost 1])) = Some []"
  by (simp add: Main_def startup_cold run_defs)

subsection \<open>The refresh of the token\<close>

lemma reconnect_redis_fields:
  "minted (world_of (reconnect_redis e s)) = minted s"
  "lastTokenRefresh (world_of (reconnect_redis e s)) = lastTokenRefresh s"
  "pgsql (world_of (reconnect_redis e s)) = pgsql s"
  "votes (world_of (reconnect_redis e s)) = votes s"
  by (simp_all add: reconnect_redis_def OpenRedisConnection_def WriteLine_def split: option.splits)

lemma keep_alive_fields:
  "minted (world_of (keep_alive s)) = minted s"
  "lastTokenRefresh (world_of (keep_alive s)) = lastTokenRefresh s"
  "pgsql (world_of (keep_alive s)) = pgsql s"
  by (simp_all add: keep_alive_def split: sum.splits)

lemma iteration_empty:
  assumes "votes s = []"
  shows "iteration useIamAuth e s =
           (case reconnect_redis e (drop_connection e s) of
              Returns a s1 \<Rightarrow> keep_alive s1 | Throws x s1 \<Rightarrow> Throws x s1 | Never s1 \<Rightarrow> Never s1)"
proof (cases "reconnect_redis e (drop_connection e s)")
  case (Returns a s1)
  from reconnect_redis_fields(4) [of e "drop_connection e s"] Returns assms
  have "votes s1 = []" by (simp add: drop_connection_fields)
  with Returns show ?thesis by (simp add: iteration_def and_then_def)
qed (simp_all add: iteration_def and_then_def)

lemma reconnect_or_write_fields:
  "minted (world_of (reconnect_or_write e v s)) = minted s"
  "lastTokenRefresh (world_of (reconnect_or_write e v s)) = lastTokenRefresh s"
  by (simp_all add: reconnect_or_write_def OpenDbConnection_def and_then_def WriteLine_def Let_def
      split: option.splits sum.splits)

lemma reconnect_or_write_open:
  assumes "heap s (pgsql s) = Open"
  shows "pgsql (world_of (reconnect_or_write e v s)) = pgsql s"
    and "heap (world_of (reconnect_or_write e v s)) = heap s"
  using assms by (simp_all add: reconnect_or_write_def split: sum.splits)

lemma refresh_token_not_due:
  "\<not> (useIamAuth \<and> UtcNow e - lastTokenRefresh s > tokenRefreshInterval) \<Longrightarrow>
   refresh_token useIamAuth e s = Returns () s"
  by (auto simp: refresh_token_def)

lemma process_mints_only_when_due:
  assumes "minted (world_of (process useIamAuth e json s)) \<noteq> minted s"
  shows "(\<exists>i v. json = Encoded i v) \<and> useIamAuth \<and>
         UtcNow e - lastTokenRefresh s > tokenRefreshInterval"
proof (cases json)
  case (Malformed x)
  with assms show ?thesis by (simp add: process_def)
next
  case (Encoded i v)
  show ?thesis
  proof (cases "useIamAuth \<and> UtcNow e - lastTokenRefresh s > tokenRefreshInterval")
    case True
    with Encoded show ?thesis by simp
  next
    case False
    let ?s1 = "WriteLine (''Processing vote for '' @ quoted v @ '' by '' @ quoted i) s"
    from False have "\<not> (useIamAuth \<and> UtcNow e - lastTokenRefresh ?s1 > tokenRefreshInterval)"
      by (simp add: WriteLine_def)
    then have "refresh_token useIamAuth e ?s1 = Returns () ?s1" by (rule refresh_token_not_due)
    with Encoded have "minted (world_of (process useIamAuth e json s)) = minted ?s1"
      by (simp add: process_def and_then_def reconnect_or_write_fields)
    with assms show ?thesis by (simp add: WriteLine_def)
  qed
qed

lemma iteration_mints_only_when_due:
  assumes "minted (world_of (iteration useIamAuth e s)) \<noteq> minted s"
  shows "(\<exists>i v rest. votes s = Encoded i v # rest) \<and> useIamAuth \<and>
         UtcNow e - lastTokenRefresh s > tokenRefreshInterval"
proof (cases "reconnect_redis e (drop_connection e s)")
  case (Returns a s1)
  with reconnect_redis_fields [of e "drop_connection e s"]
  have f: "minted s1 = minted s" "lastTokenRefresh s1 = lastTokenRefresh s" "votes s1 = votes s"
    by (simp_all add: drop_connection_fields)
  show ?thesis
  proof (cases "votes s")
    case Nil
    with Returns f assms show ?thesis
      by (simp add: iteration_def and_then_def keep_alive_fields)
  next
    case (Cons json rest)
    with Returns f have "iteration useIamAuth e s = process useIamAuth e json (s1\<lparr>votes := rest\<rparr>)"
      by (simp add: iteration_def and_then_def)
    with assms f have "minted (world_of (process useIamAuth e json (s1\<lparr>votes := rest\<rparr>)))
        \<noteq> minted (s1\<lparr>votes := rest\<rparr>)" by simp
    from process_mints_only_when_due [OF this] f Cons show ?thesis by auto
  qed
next
  case (Throws x s1)
  with reconnect_redis_fields [of e "drop_connection e s"] assms show ?thesis
    by (simp add: iteration_def and_then_def drop_connection_fields)
next
  case (Never s1)
  with reconnect_redis_fields [of e "drop_connection e s"] assms show ?thesis
    by (simp add: iteration_def and_then_def drop_connection_fields)
qed

lemma token_refresh_cases:
  "(votes s = [] \<longrightarrow>
      minted (world_of (iteration useIamAuth e s)) = minted s \<and>
      lastTokenRefresh (world_of (iteration useIamAuth e s)) = lastTokenRefresh s \<and>
      pgsql (world_of (iteration useIamAuth e s)) = pgsql s) \<and>
   (votes s = Encoded i v # rest \<and> (IsConnected e \<or> True \<in> set (redis_attempts e)) \<and>
    useIamAuth \<and> UtcNow e - lastTokenRefresh s > tokenRefreshInterval \<and>
    Accepted \<in> set (db_attempts e) \<longrightarrow>
      minted (world_of (iteration useIamAuth e s)) = Suc (minted s) \<and>
      lastTokenRefresh (world_of (iteration useIamAuth e s)) = UtcNow_reopened e \<and>
      pgsql (world_of (iteration useIamAuth e s)) = allocated s \<and>
      heap (world_of (iteration useIamAuth e s)) (allocated s) = Open)"
proof (intro conjI impI)
  assume q: "votes s = []"
  let ?r = "reconnect_redis e (drop_connection e s)"
  have "minted (world_of (iteration useIamAuth e s)) = minted s \<and>
      lastTokenRefresh (world_of (iteration useIamAuth e s)) = lastTokenRefresh s \<and>
      pgsql (world_of (iteration useIamAuth e s)) = pgsql s"
  proof (cases ?r)
    case (Returns a s1)
    with reconnect_redis_fields [of e "drop_connection e s"]
    have "minted s1 = minted s" "lastTokenRefresh s1 = lastTokenRefresh s" "pgsql s1 = pgsql s"
      by (simp_all add: drop_connection_fields)
    with Returns show ?thesis by (simp add: iteration_empty [OF q] keep_alive_fields)
  next
    case (Throws x s1)
    with reconnect_redis_fields [of e "drop_connection e s"] show ?thesis
      by (simp add: iteration_empty [OF q] drop_connection_fields)
  next
    case (Never s1)
    with reconnect_redis_fields [of e "drop_connection e s"] show ?thesis
      by (simp add: iteration_empty [OF q] drop_connection_fields)
  qed
  then show "minted (world_of (iteration useIamAuth e s)) = minted s"
    and "lastTokenRefresh (world_of (iteration useIamAuth e s)) = lastTokenRefresh s"
    and "pgsql (world_of (iteration useIamAuth e s)) = pgsql s" by simp_all
next
  assume a: "votes s = Encoded i v # rest \<and> (IsConnected e \<or> True \<in> set (redis_attempts e)) \<and>
    useIamAuth \<and> UtcNow e - lastTokenRefresh s > tokenRefreshInterval \<and>
    Accepted \<in> set (db_attempts e)"
  let ?s0 = "drop_connection e s"
  from a reconnect_redis_returns [of e ?s0] obtain ls where
    rr: "reconnect_redis e ?s0 = Returns () (?s0\<lparr>console := ls\<rparr>)" by blast
  let ?s1 = "WriteLine (''Processing vote for '' @ quoted v @ '' by '' @ quoted i)
               (?s0\<lparr>console := ls, votes := rest\<rparr>)"
  let ?s2 = "WriteLine ''Refreshing IAM auth token...'' ?s1"
  let ?s3 = "?s2\<lparr>heap := (heap ?s2)(pgsql ?s2 := Closed),
                 minted := Suc (minted ?s2), dbConnectionString := Suc (minted ?s2)\<rparr>"
  from a OpenDbConnection_returns [of "db_attempts e" ?s3] obtain ls' where
    od: "OpenDbConnection (db_attempts e) ?s3 =
         Returns (allocated ?s3)
           (?s3\<lparr>heap := (heap ?s3)(allocated ?s3 := Open), allocated := Suc (allocated ?s3),
                 console := ls', db := Some (rows (db ?s3))\<rparr>)" by blast
  let ?s4 = "?s3\<lparr>heap := (heap ?s3)(allocated ?s3 := Open), allocated := Suc (allocated ?s3),
                 console := ls', db := Some (rows (db ?s3)), pgsql := allocated ?s3,
                 keepAliveCommand := allocated ?s3, lastTokenRefresh := UtcNow_reopened e\<rparr>"
  have due: "useIamAuth \<and> UtcNow e - lastTokenRefresh ?s1 > tokenRefreshInterval"
    using a by (simp add: WriteLine_def drop_connection_fields)
  have "refresh_token useIamAuth e ?s1 = Returns () ?s4"
    unfolding refresh_token_def using due od by (simp add: Let_def and_then_def)
  with rr a have it: "iteration useIamAuth e s = reconnect_or_write e \<lparr>vote = v, voter_id = i\<rparr> ?s4"
    by (simp add: iteration_def and_then_def process_def drop_connection_fields)
  have op: "heap ?s4 (pgsql ?s4) = Open" by simp
  have f: "minted ?s4 = Suc (minted s)" "lastTokenRefresh ?s4 = UtcNow_reopened e"
    "pgsql ?s4 = allocated s" "heap ?s4 (allocated s) = Open"
    by (simp_all add: WriteLine_def drop_connection_fields)
  show "minted (world_of (iteration useIamAuth e s)) = Suc (minted s)"
    unfolding it reconnect_or_write_fields by (rule f)
  show "lastTokenRefresh (world_of (iteration useIamAuth e s)) = UtcNow_reopened e"
    unfolding it reconnect_or_write_fields by (rule f)
  show "pgsql (world_of (iteration useIamAuth e s)) = allocated s"
    unfolding it reconnect_or_write_open(1) [OF op] by (rule f)
  show "heap (world_of (iteration useIamAuth e s)) (allocated s) = Open"
    unfolding it reconnect_or_write_open(2) [OF op] by (rule f)
qed

text \<open>
  Claim C4, as amended. An iteration that finds the queue empty mints no token and
  leaves \<open>lastTokenRefresh\<close> and the store connection as they are, whatever the clock
  reads. With expiring tokens in use, an iteration that pops a decoded record more
  than \<open>tokenRefreshInterval\<close> (10 minutes) after the last mint mints one token and
  reopens the store connection, provided the store accepts the connection. No other
  iteration mints a token.
\<close>

theorem token_refresh_only_on_pop:
  "(votes s = [] \<longrightarrow>
      minted (world_of (iteration useIamAuth e s)) = minted s \<and>
      lastTokenRefresh (world_of (iteration useIamAuth e s)) = lastTokenRefresh s \<and>
      pgsql (world_of (iteration useIamAuth e s)) = pgsql s) \<and>
   (votes s = Encoded i v # rest \<and> (IsConnected e \<or> True \<in> set (redis_attempts e)) \<and>
    useIamAuth \<and> UtcNow e - lastTokenRefresh s > tokenRefreshInterval \<and>
    Accepted \<in> set (db_attempts e) \<longrightarrow>
      minted (world_of (iteration useIamAuth e s)) = Suc (minted s) \<and>
      lastTokenRefresh (world_of (iteration useIamAuth e s)) = UtcNow_reopened e \<and>
      pgsql (world_of (iteration useIamAuth e s)) = allocated s \<and>
      heap (world_of (iteration useIamAuth e s)) (allocated s) = Open) \<and>
   (minted (world_of (iteration useIamAuth e s)) \<noteq> minted s \<longrightarrow>
      (\<exists>i v rest. votes s = Encoded i v # rest) \<and> useIamAuth \<and>
      UtcNow e - lastTokenRefresh s > tokenRefreshInterval)"
  using token_refresh_cases [of s useIamAuth e i v rest]
    iteration_mints_only_when_due [of useIamAuth e s]
  by blast

theorem token_refresh_only_on_pop_witness:
  "minted (world_of (iteration True (quiet (FromMinutes 60)) (world_of (startup True (cold_boot []))))) = 1 \<and>
   lastTokenRefresh (world_of (iteration True (quiet (FromMinutes 60)) (world_of (startup True (cold_boot []))))) = 0 \<and>
   minted (world_of (iteration True (quiet (FromMinutes 60))
     (world_of (startup True (cold_boot [Encoded ''abc'' ''a'']))))) = 2 \<and>
   lastTokenRefresh (world_of (iteration True (quiet (FromMinutes 60))
     (world_of (startup True (cold_boot [Encoded ''abc'' ''a'']))))) = FromMinutes 60"
proof -
  let ?s = "world_of (startup True (cold_boot []))"
  let ?s' = "world_of (startup True (cold_boot [Encoded ''abc'' ''a'']))"
  have "votes ?s = []" "minted ?s = 1" "lastTokenRefresh ?s = 0"
    "votes ?s' = Encoded ''abc'' ''a'' # []" "minted ?s' = 1" "lastTokenRefresh ?s' = 0"
    "IsConnected (quiet (FromMinutes 60))" "Accepted \<in> set (db_attempts (quiet (FromMinutes 60)))"
    "UtcNow (quiet (FromMinutes 60)) - 0 > tokenRefreshInterval"
    "UtcNow_reopened (quiet (FromMinutes 60)) = FromMinutes 60"
    by (simp_all add: startup_cold_iam quiet_def tokenRefreshInterval_def FromMinutes_def)
  with token_refresh_only_on_pop [where s = ?s and useIamAuth = True and e = "quiet (FromMinutes 60)"]
       token_refresh_only_on_pop [where s = ?s' and useIamAuth = True and e = "quiet (FromMinutes 60)"
         and i = "''abc''" and v = "''a''" and rest = "[]"]
  show ?thesis by simp
qed

text \<open>
  Claim C4, as stated, fails: with expiring tokens in use and an empty queue, the only
  token after 60 minutes is the one minted at start.
\<close>

theorem no_refresh_without_traffic_counterexample:
  "running (Main True (cold_boot []) [quiet (FromMinutes 9), quiet (FromMinutes 11), quiet (FromMinutes 16), quiet (FromMinutes 60)]) \<and>
   minted (final (Main True (cold_boot []) [quiet (FromMinutes 9), quiet (FromMinutes 11), quiet (FromMinutes 16), quiet (FromMinutes 60)])) = 1 \<and>
   lastTokenRefresh (final (Main True (cold_boot []) [quiet (FromMinutes 9), quiet (FromMinutes 11), quiet (FromMinutes 16), quiet (FromMinutes 60)])) = 0 \<and>
   pgsql (final (Main True (cold_boot []) [quiet (FromMinutes 9), quiet (FromMinutes 11), quiet (FromMinutes 16), quiet (FromMinutes 60)])) = 0"
  by (simp add: Main_def startup_cold_iam run_defs)

subsection \<open>The invariant of the table\<close>

lemma keeps_refl: "keeps d d"
  by (simp add: keeps_def)

lemma keeps_trans: "keeps d d' \<Longrightarrow> keeps d' d'' \<Longrightarrow> keeps d d''"
  by (auto simp: keeps_def)

lemma table_ok_set_vote:
  assumes "table_ok t" and "length v \<le> 255"
  shows "table_ok (map (set_vote i v) t)"
proof -
  have "list_all (\<lambda>r. length (fst r) \<le> 255 \<and> length (snd r) \<le> 255) (map (set_vote i v) t)"
    using assms by (auto simp: table_ok_def list_all_iff set_vote_def)
  moreover have "distinct (ids (map (set_vote i v) t))"
    using assms by (simp add: table_ok_def ids_set_vote)
  ultimately show ?thesis by (simp add: table_ok_def)
qed

lemma table_ok_append:
  assumes "table_ok t" and "i \<notin> set (ids t)" and "length i \<le> 255" and "length v \<le> 255"
  shows "table_ok (t @ [(i, v)])"
  using assms by (simp add: table_ok_def ids_def)

lemma execute_keeps:
  assumes "execute q d = Inr d'"
  shows "keeps d d'"
proof (cases q)
  case CREATE_TABLE_IF_NOT_EXISTS
  with assms show ?thesis
    by (cases d) (auto simp: keeps_def db_ok_def rows_def table_ok_def ids_def)
next
  case SELECT_1
  with assms show ?thesis by (simp add: keeps_refl)
next
  case (INSERT_INTO_votes i v)
  with assms obtain t i' v' where d: "d = Some t" and i': "varchar255 i = Inr i'"
    and v': "varchar255 v = Inr v'" and new: "i' \<notin> set (ids t)" and d': "d' = Some (t @ [(i', v')])"
    by (cases d) (auto split: sum.splits if_splits)
  from i' v' have "length i' \<le> 255" "length v' \<le> 255" by (simp_all add: varchar255_length)
  with new have "table_ok t \<Longrightarrow> table_ok (t @ [(i', v')])" by (simp add: table_ok_append)
  with d d' show ?thesis by (simp add: keeps_def db_ok_def rows_def ids_def)
next
  case (UPDATE_votes_SET_vote i v)
  with assms obtain t v' where d: "d = Some t" and v': "varchar255 v = Inr v'"
    and d': "d' = Some (map (set_vote i v') t)"
    by (cases d) (auto split: sum.splits if_splits)
  from v' have "length v' \<le> 255" by (simp add: varchar255_length)
  then have "table_ok t \<Longrightarrow> table_ok (map (set_vote i v') t)" by (simp add: table_ok_set_vote)
  with d d' show ?thesis by (simp add: keeps_def db_ok_def rows_def ids_set_vote)
qed

lemma ExecuteNonQuery_keeps: "ExecuteNonQuery c q d = Inr d' \<Longrightarrow> keeps d d'"
  by (auto simp: ExecuteNonQuery_def execute_keeps split: if_splits sum.splits)

lemma UpdateVote_keeps: "UpdateVote c i v d = Inr d' \<Longrightarrow> keeps d d'"
  by (auto simp: UpdateVote_def ExecuteNonQuery_keeps split: sum.splits exn.splits)

lemma and_then_keeps:
  assumes "keeps d (db (world_of r))"
    and "\<And>a s'. r = Returns a s' \<Longrightarrow> keeps (db s') (db (world_of (f a s')))"
  shows "keeps d (db (world_of (and_then r f)))"
proof (cases r)
  case (Returns a s')
  with assms(1) have "keeps d (db s')" by simp
  from keeps_trans [OF this assms(2) [OF Returns]] Returns show ?thesis
    by (simp add: and_then_def)
qed (use assms(1) in \<open>simp_all add: and_then_def\<close>)

lemma OpenDbConnection_keeps: "keeps (db s) (db (world_of (OpenDbConnection as s)))"
proof (cases "waiting_for_db as")
  case None
  then show ?thesis by (simp add: OpenDbConnection_def keeps_refl)
next
  case (Some ls)
  show ?thesis
  proof (cases "ExecuteNonQuery Open CREATE_TABLE_IF_NOT_EXISTS (db s)")
    case (Inl x)
    with Some show ?thesis by (simp add: OpenDbConnection_def Let_def keeps_refl)
  next
    case (Inr d)
    then have "keeps (db s) d" by (rule ExecuteNonQuery_keeps)
    with Some Inr show ?thesis by (simp add: OpenDbConnection_def Let_def)
  qed
qed

lemma OpenRedisConnection_db: "db (world_of (OpenRedisConnection as s)) = db s"
  by (simp add: OpenRedisConnection_def split: option.splits)

lemma reconnect_redis_db: "db (world_of (reconnect_redis e s)) = db s"
  by (simp add: reconnect_redis_def OpenRedisConnection_db WriteLine_def)

lemma refresh_token_keeps: "keeps (db s) (db (world_of (refresh_token u e s)))"
proof (cases "u \<and> UtcNow e - lastTokenRefresh s > tokenRefreshInterval")
  case True
  let ?s3 = "(WriteLine ''Refreshing IAM auth token...'' s)
               \<lparr>heap := (heap (WriteLine ''Refreshing IAM auth token...'' s))
                          (pgsql (WriteLine ''Refreshing IAM auth token...'' s) := Closed),
                minted := Suc (minted (WriteLine ''Refreshing IAM auth token...'' s)),
                dbConnectionString := Suc (minted (WriteLine ''Refreshing IAM auth token...'' s))\<rparr>"
  have "keeps (db ?s3) (db (world_of (and_then (OpenDbConnection (db_attempts e) ?s3)
           (\<lambda>connection s4. Returns ()
                 (s4\<lparr>pgsql := connection, keepAliveCommand := connection,
                      lastTokenRefresh := UtcNow_reopened e\<rparr>)))))"
    by (rule and_then_keeps [OF OpenDbConnection_keeps]) (simp add: keeps_refl)
  moreover have "db ?s3 = db s" by (simp add: WriteLine_def)
  ultimately show ?thesis using True by (simp add: refresh_token_def Let_def)
next
  case False
  then show ?thesis by (auto simp: refresh_token_def keeps_refl)
qed

lemma reconnect_or_write_keeps: "keeps (db s) (db (world_of (reconnect_or_write e v s)))"
proof (cases "heap s (pgsql s) = Open")
  case True
  then show ?thesis
    by (auto simp: reconnect_or_write_def keeps_refl UpdateVote_keeps split: sum.splits)
next
  case False
  have "keeps (db (WriteLine ''Reconnecting DB'' s))
          (db (world_of (and_then (OpenDbConnection (db_attempts e) (WriteLine ''Reconnecting DB'' s))
             (\<lambda>connection s1. Returns () (s1\<lparr>pgsql := connection\<rparr>)))))"
    by (rule and_then_keeps [OF OpenDbConnection_keeps]) (simp add: keeps_refl)
  with False show ?thesis by (simp add: reconnect_or_write_def WriteLine_def)
qed

lemma process_keeps: "keeps (db s) (db (world_of (process u e json s)))"
proof (cases "DeserializeAnonymousType json")
  case (Inl x)
  then show ?thesis by (simp add: process_def keeps_refl)
next
  case (Inr v)
  let ?s1 = "WriteLine (''Processing vote for '' @ quoted (vote v) @ '' by '' @ quoted (voter_id v)) s"
  have "keeps (db ?s1) (db (world_of (and_then (refresh_token u e ?s1) (\<lambda>_. reconnect_or_write e v))))"
    by (rule and_then_keeps [OF refresh_token_keeps]) (rule reconnect_or_write_keeps)
  with Inr show ?thesis by (simp add: process_def WriteLine_def)
qed

lemma keep_alive_keeps: "keeps (db s) (db (world_of (keep_alive s)))"
  by (auto simp: keep_alive_def keeps_refl ExecuteNonQuery_keeps split: sum.splits)

lemma iteration_keeps: "keeps (db s) (db (world_of (iteration u e s)))"
proof -
  have "keeps (db (drop_connection e s)) (db (world_of (iteration u e s)))"
    unfolding iteration_def
  proof (rule and_then_keeps)
    show "keeps (db (drop_connection e s)) (db (world_of (reconnect_redis e (drop_connection e s))))"
      by (simp add: reconnect_redis_db keeps_refl)
  next
    fix a s'
    show "keeps (db s') (db (world_of (case votes s' of [] \<Rightarrow> keep_alive s'
             | json # rest \<Rightarrow> process u e json (s'\<lparr>votes := rest\<rparr>))))"
    proof (cases "votes s'")
      case Nil
      then show ?thesis by (simp add: keep_alive_keeps)
    next
      case (Cons json rest)
      have "keeps (db (s'\<lparr>votes := rest\<rparr>)) (db (world_of (process u e json (s'\<lparr>votes := rest\<rparr>))))"
        by (rule process_keeps)
      with Cons show ?thesis by simp
    qed
  qed
  then show ?thesis by (simp add: drop_connection_fields)
qed

lemma loop_keeps: "keeps (db s) (db (final (loop u es s)))"
proof (induction es arbitrary: s)
  case Nil
  show ?case by (simp add: keeps_refl)
next
  case (Cons e es)
  show ?case
  proof (cases "iteration u e s")
    case (Returns a s1)
    with iteration_keeps [of s u e] have "keeps (db s) (db s1)" by simp
    from keeps_trans [OF this Cons.IH [of s1]] Returns show ?thesis by simp
  next
    case (Throws x s1)
    with iteration_keeps [of s u e] show ?thesis by (simp add: handler_def WriteLine_def)
  next
    case (Never s1)
    with iteration_keeps [of s u e] show ?thesis by simp
  qed
qed

lemma startup_keeps: "keeps (boot_db b) (db (world_of (startup u b)))"
proof -
  let ?s1 = "if u then WriteLine ''Using IAM authentication for RDS''
                       ((power_on b)\<lparr>minted := Suc (minted (power_on b)),
                                     dbConnectionString := Suc (minted (power_on b))\<rparr>)
             else WriteLine ''Using password authentication for database'' (power_on b)"
  have "keeps (db ?s1) (db (world_of (and_then (OpenDbConnection (boot_db_attempts b) ?s1)
           (\<lambda>connection s2.
              and_then (OpenRedisConnection (boot_redis_attempts b) (s2\<lparr>pgsql := connection\<rparr>))
                (\<lambda>_ s3. Returns ()
                   (s3\<lparr>keepAliveCommand := pgsql s3, lastTokenRefresh := boot_UtcNow b\<rparr>))))))"
  proof (rule and_then_keeps [OF OpenDbConnection_keeps])
    fix a s'
    show "keeps (db s') (db (world_of (and_then (OpenRedisConnection (boot_redis_attempts b) (s'\<lparr>pgsql := a\<rparr>))
                (\<lambda>_ s3. Returns ()
                   (s3\<lparr>keepAliveCommand := pgsql s3, lastTokenRefresh := boot_UtcNow b\<rparr>)))))"
      by (rule and_then_keeps) (simp_all add: OpenRedisConnection_db keeps_refl)
  qed
  moreover have "db ?s1 = boot_db b" by (simp add: WriteLine_def power_on_def)
  ultimately show ?thesis by (simp add: startup_def Let_def)
qed

lemma Main_keeps: "keeps (boot_db b) (db (final (Main u b es)))"
proof (cases "startup u b")
  case (Returns a s)
  with startup_keeps [of b u] have "keeps (boot_db b) (db s)" by simp
  from keeps_trans [OF this loop_keeps] Returns show ?thesis by (simp add: Main_def)
next
  case (Throws x s)
  with startup_keeps [of b u] show ?thesis by (simp add: Main_def handler_def WriteLine_def)
next
  case (Never s)
  with startup_keeps [of b u] show ?thesis by (simp add: Main_def)
qed

lemma UpdateVote_in_place:
  assumes "table_ok t" and "i \<in> set (ids t)" and "UpdateVote c i v (Some t) = Inr d"
  shows "\<exists>w. varchar255 v = Inr w \<and> (length v \<le> 255 \<longrightarrow> w = v) \<and>
             rows d = map (\<lambda>r. if fst r = i then (i, w) else r) t \<and>
             rows_of i d = [(i, w)]"
proof -
  from assms(1,2) have "length i \<le> 255" using long_id_absent [of t i] by force
  then have "varchar255 i = Inr i" by (rule varchar255_fits)
  with assms(2,3) have "\<exists>w. varchar255 v = Inr w \<and> d = Some (map (set_vote i w) t)"
    by (auto simp: UpdateVote_def ExecuteNonQuery_def split: if_splits sum.splits)
  then obtain w where w: "varchar255 v = Inr w" and d: "d = Some (map (set_vote i w) t)"
    by blast
  have "set_vote i w = (\<lambda>r. if fst r = i then (i, w) else r)"
    by (auto simp: set_vote_def fun_eq_iff)
  with d have r: "rows d = map (\<lambda>r. if fst r = i then (i, w) else r) t"
    by (simp add: rows_def)
  from assms(1) have "distinct (ids t)" by (simp add: table_ok_def)
  from filter_set_vote [OF this assms(2), of w] d have ro: "rows_of i d = [(i, w)]"
    by (simp add: rows_of_def rows_def)
  from w have "length v \<le> 255 \<longrightarrow> w = v" by (auto simp: varchar255_def)
  with w r ro show ?thesis by blast
qed

lemma iteration_in_place:
  assumes "votes s = Encoded i v # rest" and "healthy useIamAuth e"
    and "heap s (pgsql s) = Open" and "db s = Some t" and "i \<in> set (ids t)"
    and "storable i" and "storable v"
  shows "\<exists>s'. iteration useIamAuth e s = Returns () s' \<and>
              rows (db s') = map (\<lambda>r. if fst r = i then (i, v) else r) t"
proof -
  from iteration_writes [OF assms(1,2,3,4,6,7)] assms(5) obtain s' where
    "iteration useIamAuth e s = Returns () s'" and "db s' = Some (map (set_vote i v) t)"
    by auto
  moreover have "set_vote i v = (\<lambda>r. if fst r = i then (i, v) else r)"
    by (auto simp: set_vote_def fun_eq_iff)
  ultimately show ?thesis by (auto simp: rows_def)
qed

text \<open>
  Claim C7. Whatever the worker does in a run of \<open>Main\<close> (opening connections and
  creating the table, keep-alive probes, writes, reconnections, token refreshes, ending
  with an exception), a store that satisfies the invariant of the table at start
  satisfies it at the end: no two rows have the same voter identity. No row is ever
  deleted: the \<open>id\<close> column at start is an initial segment of the \<open>id\<close> column at
  the end. A write that returns, for a voter identity that already has a row, changes
  that row's choice in place: the table after it is the table before it with the new
  choice in the row of that voter and every other row as it was, at the same position;
  the voter has that one row, and no row is added. (The choice stored is the one
  written, cut to the column width when only blanks exceed it.) So does the iteration
  of the loop that pops a Submission of such a voter with the store connection open.
\<close>

theorem tally_invariant:
  assumes "db_ok (boot_db b)"
  shows "db_ok (db (final (Main useIamAuth b es))) \<and>
         prefix (ids (rows (boot_db b))) (ids (rows (db (final (Main useIamAuth b es))))) \<and>
         (\<forall>t c i v d. table_ok t \<and> i \<in> set (ids t) \<and> UpdateVote c i v (Some t) = Inr d \<longrightarrow>
            (\<exists>w. varchar255 v = Inr w \<and> (length v \<le> 255 \<longrightarrow> w = v) \<and>
                 rows d = map (\<lambda>r. if fst r = i then (i, w) else r) t \<and>
                 rows_of i d = [(i, w)]) \<and>
            ids (rows d) = ids t \<and> length (rows d) = length t) \<and>
         (\<forall>(s::world) e i v rest t.
            votes s = Encoded i v # rest \<and> healthy useIamAuth e \<and> heap s (pgsql s) = Open \<and>
            db s = Some t \<and> i \<in> set (ids t) \<and> storable i \<and> storable v \<longrightarrow>
            (\<exists>s'. iteration useIamAuth e s = Returns () s' \<and>
                  rows (db s') = map (\<lambda>r. if fst r = i then (i, v) else r) t))"
proof (intro conjI allI impI)
  from assms Main_keeps [of b useIamAuth es]
  show "db_ok (db (final (Main useIamAuth b es)))"
    and "prefix (ids (rows (boot_db b))) (ids (rows (db (final (Main useIamAuth b es)))))"
    by (simp_all add: keeps_def)
next
  fix t c i v d
  assume a: "table_ok t \<and> i \<in> set (ids t) \<and> UpdateVote c i v (Some t) = Inr d"
  then have "table_ok t" "i \<in> set (ids t)" "UpdateVote c i v (Some t) = Inr d" by simp_all
  from UpdateVote_in_place [OF this] obtain w where w: "varchar255 v = Inr w"
    "length v \<le> 255 \<longrightarrow> w = v"
    "rows d = map (\<lambda>r. if fst r = i then (i, w) else r) t" "rows_of i d = [(i, w)]"
    by blast
  then show "\<exists>w. varchar255 v = Inr w \<and> (length v \<le> 255 \<longrightarrow> w = v) \<and>
                 rows d = map (\<lambda>r. if fst r = i then (i, w) else r) t \<and>
                 rows_of i d = [(i, w)]" by blast
  from w(3) have "ids (rows d) = map (fst \<circ> (\<lambda>r. if fst r = i then (i, w) else r)) t"
    by (simp add: ids_def)
  also have "\<dots> = ids t" by (simp add: ids_def comp_def cong: map_cong)
  finally show "ids (rows d) = ids t" .
  from w(3) show "length (rows d) = length t" by simp
next
  fix s :: world and e i v rest t
  assume "votes s = Encoded i v # rest \<and> healthy useIamAuth e \<and> heap s (pgsql s) = Open \<and>
            db s = Some t \<and> i \<in> set (ids t) \<and> storable i \<and> storable v"
  then show "\<exists>s'. iteration useIamAuth e s = Returns () s' \<and>
                  rows (db s') = map (\<lambda>r. if fst r = i then (i, v) else r) t"
    using iteration_in_place [of s i v rest useIamAuth e t] by simp
qed

theorem tally_invariant_witness:
  "db_ok (boot_db (cold_boot [Encoded ''abc'' ''a'', Encoded ''abc'' ''b''])) \<and>
   db_ok (db (final (Main False (cold_boot [Encoded ''abc'' ''a'', Encoded ''abc'' ''b''])
                       [quiet 1, quiet 2]))) \<and>
   prefix (ids (rows (boot_db (cold_boot [Encoded ''abc'' ''a'', Encoded ''abc'' ''b'']))))
     (ids (rows (db (final (Main False (cold_boot [Encoded ''abc'' ''a'', Encoded ''abc'' ''b''])
                       [quiet 1, quiet 2]))))) \<and>
   table_ok [(''x'', ''a''), (''abc'', ''a''), (''y'', ''b'')] \<and>
   ''abc'' \<in> set (ids [(''x'', ''a''), (''abc'', ''a''), (''y'', ''b'')]) \<and>
   UpdateVote Open ''abc'' ''b'' (Some [(''x'', ''a''), (''abc'', ''a''), (''y'', ''b'')]) =
     Inr (Some [(''x'', ''a''), (''abc'', ''b''), (''y'', ''b'')]) \<and>
   rows (Some [(''x'', ''a''), (''abc'', ''b''), (''y'', ''b'')]) =
     map (\<lambda>r. if fst r = ''abc'' then (''abc'', ''b'') else r)
       [(''x'', ''a''), (''abc'', ''a''), (''y'', ''b'')] \<and>
   rows_of ''abc'' (Some [(''x'', ''a''), (''abc'', ''b''), (''y'', ''b'')]) = [(''abc'', ''b'')] \<and>
   (\<exists>s'. iteration False (quiet 2)
           (world_of (iteration False (quiet 1)
              (world_of (startup False (cold_boot [Encoded ''abc'' ''a'', Encoded ''abc'' ''b'']))))) =
         Returns () s' \<and>
         rows (db s') = map (\<lambda>r. if fst r = ''abc'' then (''abc'', ''b'') else r) [(''abc'', ''a'')])"
proof -
  have h: "db_ok (boot_db (cold_boot [Encoded ''abc'' ''a'', Encoded ''abc'' ''b'']))"
    by (simp add: cold_boot_def db_ok_def)
  let ?s1 = "world_of (iteration False (quiet 1)
              (world_of (startup False (cold_boot [Encoded ''abc'' ''a'', Encoded ''abc'' ''b'']))))"
  have s1: "votes ?s1 = Encoded ''abc'' ''b'' # [] \<and> healthy False (quiet 2) \<and>
            heap ?s1 (pgsql ?s1) = Open \<and> db ?s1 = Some [(''abc'', ''a'')] \<and>
            ''abc'' \<in> set (ids [(''abc'', ''a'')]) \<and> storable ''abc'' \<and> storable ''b''"
    by (simp add: startup_cold run_defs healthy_def varchar255_def has_NUL_def storable_def
        ids_def)
  have t: "table_ok [(''x'', ''a''), (''abc'', ''a''), (''y'', ''b'')] \<and>
           ''abc'' \<in> set (ids [(''x'', ''a''), (''abc'', ''a''), (''y'', ''b'')]) \<and>
           UpdateVote Open ''abc'' ''b'' (Some [(''x'', ''a''), (''abc'', ''a''), (''y'', ''b'')]) =
             Inr (Some [(''x'', ''a''), (''abc'', ''b''), (''y'', ''b'')])"
    by (simp add: table_ok_def ids_def UpdateVote_def ExecuteNonQuery_def varchar255_def
        has_NUL_def set_vote_def)
  have w: "varchar255 ''b'' = Inr ''b''" by (simp add: varchar255_def)
  from tally_invariant [OF h, of False "[quiet 1, quiet 2]"] t
  have "\<exists>w. varchar255 ''b'' = Inr w \<and>
          rows (Some [(''x'', ''a''), (''abc'', ''b''), (''y'', ''b'')]) =
            map (\<lambda>r. if fst r = ''abc'' then (''abc'', w) else r)
              [(''x'', ''a''), (''abc'', ''a''), (''y'', ''b'')] \<and>
          rows_of ''abc'' (Some [(''x'', ''a''), (''abc'', ''b''), (''y'', ''b'')]) = [(''abc'', w)]"
    by blast
  with w have "rows (Some [(''x'', ''a''), (''abc'', ''b''), (''y'', ''b'')]) =
            map (\<lambda>r. if fst r = ''abc'' then (''abc'', ''b'') else r)
              [(''x'', ''a''), (''abc'', ''a''), (''y'', ''b'')] \<and>
          rows_of ''abc'' (Some [(''x'', ''a''), (''abc'', ''b''), (''y'', ''b'')]) = [(''abc'', ''b'')]"
    by auto
  moreover from tally_invariant [OF h, of False "[quiet 1, quiet 2]"] s1
  have "\<exists>s'. iteration False (quiet 2) ?s1 = Returns () s' \<and>
         rows (db s') = map (\<lambda>r. if fst r = ''abc'' then (''abc'', ''b'') else r) [(''abc'', ''a'')]"
    by blast
  ultimately show ?thesis
    using tally_invariant [OF h, of False "[quiet 1, quiet 2]"] h t by blast
qed

section \<open>Properties of the aggregator\<close>

subsection \<open>Counts survive the decimal text\<close>

lemma of_char_digit_char: "d < 10 \<Longrightarrow> of_char (digit_char d) = 48 + d"
  by (simp add: digit_char_def)

lemma digit_value_digit_char: "d < 10 \<Longrightarrow> digit_value (digit_char d) = d"
  by (simp add: digit_value_def of_char_digit_char Let_def)

lemma is_digit_digit_char: "d < 10 \<Longrightarrow> is_digit (digit_char d)"
  by (simp add: is_digit_def of_char_digit_char)

lemma decimal_digits: "list_all is_digit (decimal n)"
proof (induction n rule: decimal.induct)
  case (1 n)
  show ?case
  proof (cases "n < 10")
    case True
    then show ?thesis by (subst decimal.simps) (simp add: is_digit_digit_char)
  next
    case False
    with 1 have "list_all is_digit (decimal (n div 10))" by simp
    moreover have "is_digit (digit_char (n mod 10))" by (simp add: is_digit_digit_char)
    ultimately show ?thesis using False by (subst decimal.simps) simp
  qed
qed

lemma decimal_not_Nil: "decimal n \<noteq> []"
  by (subst decimal.simps) simp

lemma digits_value_decimal: "digits_value 10 (decimal n) = n"
proof (induction n rule: decimal.induct)
  case (1 n)
  show ?case
  proof (cases "n < 10")
    case True
    then show ?thesis by (subst decimal.simps) (simp add: digits_value_def digit_value_digit_char)
  next
    case False
    with 1 have "digits_value 10 (decimal (n div 10)) = n div 10" by simp
    then have "digits_value 10 (decimal (n div 10) @ [digit_char (n mod 10)]) = n div 10 * 10 + n mod 10"
      by (simp add: digits_value_def digit_value_digit_char)
    with False show ?thesis by (subst decimal.simps) simp
  qed
qed

lemma is_digit_value: "is_digit c \<Longrightarrow> digit_value c < 10"
  by (auto simp: is_digit_def digit_value_def Let_def)

lemma is_digit_plain:
  assumes "is_digit c"
  shows "\<not> is_white c" and "c \<noteq> CHR ''-''" and "c \<noteq> CHR ''+''"
    and "c \<noteq> CHR ''x''" and "c \<noteq> CHR ''X''"
  using assms by (auto simp: is_digit_def is_white_def)

lemma parse_digits_all:
  assumes "list_all is_digit s" and "s \<noteq> []"
  shows "parse_digits 10 s = Some (digits_value 10 s)"
proof -
  from assms(1) have tw: "takeWhile (\<lambda>c. digit_value c < 10) s = s"
    by (auto simp: list_all_iff is_digit_value)
  show ?thesis unfolding parse_digits_def Let_def tw using assms(2) by simp
qed

lemma parseInt_digits:
  assumes "list_all is_digit s" and "s \<noteq> []"
  shows "parseInt s = to_number (int (digits_value 10 s))"
proof -
  from assms obtain c cs where s: "s = c # cs" and c: "is_digit c" and cs: "list_all is_digit cs"
    by (cases s) auto
  from c have w: "dropWhile is_white s = s" by (simp add: s is_digit_plain)
  from c have sign: "take 1 s \<noteq> ''-''" "take 1 s \<noteq> ''+''" by (simp_all add: s is_digit_plain)
  have hexp: "take 2 s \<noteq> ''0x''" "take 2 s \<noteq> ''0X''"
  proof -
    show "take 2 s \<noteq> ''0x''" using cs by (cases cs) (auto simp: s is_digit_plain)
    show "take 2 s \<noteq> ''0X''" using cs by (cases cs) (auto simp: s is_digit_plain)
  qed
  from hexp have "parse_unsigned s = parse_digits 10 s" by (simp add: parse_unsigned_def)
  with parse_digits_all [OF assms] have "parse_unsigned s = Some (digits_value 10 s)" by simp
  with w sign show ?thesis by (simp add: parseInt_def)
qed

lemma parseInt_decimal: "parseInt (decimal n) = to_number (int n)"
  using parseInt_digits [OF decimal_digits decimal_not_Nil, of n]
  by (simp add: digits_value_decimal)

lemma parseInt_count:
  assumes "length t \<le> 2 ^ 53"
  shows "parseInt (decimal (COUNT c t)) = Num (int (COUNT c t))"
proof -
  have "COUNT c t \<le> length t" by (simp add: COUNT_def)
  with assms have "int (COUNT c t) \<le> 2 ^ 53" by simp
  then show ?thesis by (simp add: parseInt_decimal to_number_def)
qed

subsection \<open>The snapshot\<close>

lemma collect_foldl:
  "foldl (\<lambda>votes row. assign votes (fst row) (f (snd row))) m (map (\<lambda>c. (c, g c)) cs) =
   (\<lambda>k. if k \<in> set cs \<and> k \<noteq> ''__proto__'' then Some (f (g k)) else m k)"
proof (induction cs arbitrary: m)
  case Nil
  show ?case by simp
next
  case (Cons c cs)
  have "foldl (\<lambda>votes row. assign votes (fst row) (f (snd row))) m (map (\<lambda>c. (c, g c)) (c # cs)) =
        foldl (\<lambda>votes row. assign votes (fst row) (f (snd row))) (assign m c (f (g c)))
          (map (\<lambda>c. (c, g c)) cs)"
    by simp
  also have "\<dots> = (\<lambda>k. if k \<in> set cs \<and> k \<noteq> ''__proto__'' then Some (f (g k))
                       else (assign m c (f (g c))) k)"
    by (rule Cons.IH)
  also have "\<dots> = (\<lambda>k. if k \<in> set (c # cs) \<and> k \<noteq> ''__proto__'' then Some (f (g k)) else m k)"
    by (auto simp: fun_eq_iff assign_def)
  finally show ?case .
qed

lemma collectVotes_SELECT:
  "collectVotesFromResult (SELECT_vote_COUNT t) =
     (\<lambda>c. if c \<in> snd ` set t \<and> c \<noteq> ''__proto__'' then Some (parseInt (decimal (COUNT c t)))
          else if c = ''a'' \<or> c = ''b'' then Some (Num 0) else None)"
  unfolding collectVotesFromResult_def SELECT_vote_COUNT_def
  by (simp add: collect_foldl [where f = parseInt and g = "\<lambda>c. decimal (COUNT c t)"] fun_eq_iff)

lemma snapshot_of_table:
  assumes "''__proto__'' \<notin> snd ` set t" and "length t \<le> 2 ^ 53"
  shows "collectVotesFromResult (SELECT_vote_COUNT t) =
           [''a'' \<mapsto> Num 0, ''b'' \<mapsto> Num 0] ++ spec_grouping t"
proof (rule ext)
  fix c
  show "collectVotesFromResult (SELECT_vote_COUNT t) c =
          ([''a'' \<mapsto> Num 0, ''b'' \<mapsto> Num 0] ++ spec_grouping t) c"
  proof (cases "c \<in> snd ` set t")
    case True
    with assms(1) have "c \<noteq> ''__proto__''" by blast
    with True show ?thesis
      by (simp add: collectVotes_SELECT parseInt_count [OF assms(2)] spec_grouping_def map_add_def)
  next
    case False
    then show ?thesis
      by (simp add: collectVotes_SELECT spec_grouping_def map_add_def)
  qed
qed

lemma getVotes_emits:
  "emitted (getVotes (client_query True (Some t)) s) =
     emitted s @ [collectVotesFromResult (SELECT_vote_COUNT t)]"
  by (simp add: getVotes_def client_query_def)

text \<open>
  Claim C8, as amended. When no Tally Row holds the choice \<open>__proto__\<close> and there are
  at most \<open>2^53\<close> rows, the cycle of the aggregator whose query succeeds broadcasts one
  snapshot, which is the grouping of the Tally Rows by choice, with \<open>a\<close> and \<open>b\<close> at 0
  when no row holds them. For the Tally Rows
  \<open>[{id:"1",vote:"a"},{id:"2",vote:"a"},{id:"3",vote:"b"}]\<close> the snapshot broadcast
  is \<open>{a: 2, b: 1}\<close>.
\<close>

theorem broadcast_is_grouping:
  "(''__proto__'' \<notin> snd ` set t \<and> length t \<le> 2 ^ 53 \<longrightarrow>
      emitted (getVotes (client_query True (Some t)) s) =
        emitted s @ [[''a'' \<mapsto> Num 0, ''b'' \<mapsto> Num 0] ++ spec_grouping t]) \<and>
   emitted (getVotes (client_query True (Some [(''1'', ''a''), (''2'', ''a''), (''3'', ''b'')])) s) =
     emitted s @ [[''a'' \<mapsto> Num 2, ''b'' \<mapsto> Num 1]]"
proof (intro conjI impI)
  assume "''__proto__'' \<notin> snd ` set t \<and> length t \<le> 2 ^ 53"
  then show "emitted (getVotes (client_query True (Some t)) s) =
        emitted s @ [[''a'' \<mapsto> Num 0, ''b'' \<mapsto> Num 0] ++ spec_grouping t]"
    by (simp add: getVotes_emits snapshot_of_table)
next
  have "collectVotesFromResult (SELECT_vote_COUNT [(''1'', ''a''), (''2'', ''a''), (''3'', ''b'')]) =
          [''a'' \<mapsto> Num 2, ''b'' \<mapsto> Num 1]"
    by (rule ext) (simp add: collectVotes_SELECT parseInt_decimal to_number_def COUNT_def)
  then show "emitted (getVotes (client_query True
                 (Some [(''1'', ''a''), (''2'', ''a''), (''3'', ''b'')])) s) =
     emitted s @ [[''a'' \<mapsto> Num 2, ''b'' \<mapsto> Num 1]]"
    by (simp add: getVotes_emits)
qed

theorem broadcast_is_grouping_witness:
  "''__proto__'' \<notin> snd ` set [(''1'', ''a''), (''2'', ''c''), (''3'', ''c'')] \<and>
   length [(''1'', ''a''), (''2'', ''c''), (''3'', ''c'')] \<le> (2::nat) ^ 53 \<and>
   emitted (getVotes (client_query True (Some [(''1'', ''a''), (''2'', ''c''), (''3'', ''c'')]))
              \<lparr>errors = [], emitted = [], pending = None\<rparr>) =
     [[''a'' \<mapsto> Num 1, ''b'' \<mapsto> Num 0, ''c'' \<mapsto> Num 2]]"
proof -
  have h: "''__proto__'' \<notin> snd ` set [(''1'', ''a''), (''2'', ''c''), (''3'', ''c'')] \<and>
           length [(''1'', ''a''), (''2'', ''c''), (''3'', ''c'')] \<le> (2::nat) ^ 53"
    by simp
  have g: "[''a'' \<mapsto> Num 0, ''b'' \<mapsto> Num 0] ++
             spec_grouping [(''1'', ''a''), (''2'', ''c''), (''3'', ''c'')] =
           [''a'' \<mapsto> Num 1, ''b'' \<mapsto> Num 0, ''c'' \<mapsto> Num 2]"
    by (rule ext) (simp add: spec_grouping_def map_add_def COUNT_def)
  from broadcast_is_grouping [of "[(''1'', ''a''), (''2'', ''c''), (''3'', ''c'')]"
         "\<lparr>errors = [], emitted = [], pending = None\<rparr>"] h g
  show ?thesis by simp
qed

text \<open>
  Claim C8, as stated, fails for Tally Rows that hold the choice \<open>__proto__\<close>: two rows
  hold it, the grouping counts them, and the snapshot broadcast has no entry for it.
\<close>

theorem proto_choice_counterexample:
  "spec_grouping [(''1'', ''a''), (''2'', ''__proto__''), (''3'', ''__proto__'')] ''__proto__'' =
     Some (Num 2) \<and>
   emitted (getVotes (client_query True
              (Some [(''1'', ''a''), (''2'', ''__proto__''), (''3'', ''__proto__'')]))
              \<lparr>errors = [], emitted = [], pending = None\<rparr>) =
     [[''a'' \<mapsto> Num 1, ''b'' \<mapsto> Num 0]] \<and>
   [''a'' \<mapsto> Num 1, ''b'' \<mapsto> Num 0] ''__proto__'' = None"
proof -
  have "collectVotesFromResult (SELECT_vote_COUNT
          [(''1'', ''a''), (''2'', ''__proto__''), (''3'', ''__proto__'')]) =
        [''a'' \<mapsto> Num 1, ''b'' \<mapsto> Num 0]"
    by (rule ext) (simp add: collectVotes_SELECT parseInt_decimal to_number_def COUNT_def)
  then show ?thesis
    by (simp add: getVotes_emits spec_grouping_def COUNT_def)
qed

subsection \<open>Cycles of the aggregation loop\<close>

lemma getVotes_error:
  "getVotes (Inl err) s = s\<lparr>errors := errors s @ [''Error performing query: '' @ err], pending := Some 1000\<rparr>"
  by (simp add: getVotes_def)

lemma getVotes_result:
  "getVotes (Inr result) s = s\<lparr>emitted := emitted s @ [collectVotesFromResult result], pending := Some 1000\<rparr>"
  by (simp add: getVotes_def)

lemma timers_all:
  assumes "pending s = Some d"
  shows "errors (timers answers s) =
           errors s @ map (\<lambda>err. ''Error performing query: '' @ err) [err. Inl err \<leftarrow> answers] \<and>
         emitted (timers answers s) =
           emitted s @ map collectVotesFromResult [result. Inr result \<leftarrow> answers] \<and>
         pending (timers answers s) = (if answers = [] then Some d else Some 1000)"
  using assms
proof (induction answers arbitrary: s d)
  case Nil
  then show ?case by simp
next
  case (Cons answer answers)
  show ?case
  proof (cases answer)
    case (Inl err)
    let ?s1 = "getVotes answer (s\<lparr>pending := None\<rparr>)"
    have p: "pending ?s1 = Some 1000" by (simp add: getVotes_def)
    from Cons.IH [OF p] Cons.prems Inl show ?thesis
      by (simp add: getVotes_error)
  next
    case (Inr result)
    let ?s1 = "getVotes answer (s\<lparr>pending := None\<rparr>)"
    have p: "pending ?s1 = Some 1000" by (simp add: getVotes_def)
    from Cons.IH [OF p] Cons.prems Inr show ?thesis
      by (simp add: getVotes_result)
  qed
qed

lemma aggregate_all:
  "errors (aggregate answers) = map (\<lambda>err. ''Error performing query: '' @ err) [err. Inl err \<leftarrow> answers] \<and>
   emitted (aggregate answers) = map collectVotesFromResult [result. Inr result \<leftarrow> answers] \<and>
   pending (aggregate answers) = (if answers = [] then None else Some 1000)"
proof (cases answers)
  case Nil
  then show ?thesis by (simp add: aggregate_def)
next
  case (Cons answer rest)
  let ?s0 = "\<lparr>errors = [], emitted = [], pending = None\<rparr>"
  have p: "pending (getVotes answer ?s0) = Some 1000" by (simp add: getVotes_def)
  from timers_all [OF p, of rest] Cons show ?thesis
    by (cases answer) (simp_all add: aggregate_def getVotes_def)
qed

text \<open>
  Claim C9. A cycle whose query fails writes the error to the console, emits nothing
  and sets the timer of the next cycle to 1000 ms. Over any sequence of cycles, the
  console holds one line per failed query, the emitted events are the snapshots of
  the queries that succeeded, in order, and after every cycle a timer of 1000 ms is
  pending: no failure ends the loop.
\<close>

theorem query_failure_skips_broadcast:
  "emitted (getVotes (Inl err) s) = emitted s \<and>
   errors (getVotes (Inl err) s) = errors s @ [''Error performing query: '' @ err] \<and>
   pending (getVotes (Inl err) s) = Some 1000 \<and>
   errors (aggregate answers) =
     map (\<lambda>err. ''Error performing query: '' @ err) [err. Inl err \<leftarrow> answers] \<and>
   emitted (aggregate answers) = map collectVotesFromResult [result. Inr result \<leftarrow> answers] \<and>
   pending (aggregate (answer # answers)) = Some 1000"
  using aggregate_all [of answers] aggregate_all [of "answer # answers"]
  by (simp add: getVotes_error)

section \<open>Properties of the intake\<close>

text \<open>
  Claim C6, as amended. The intake does not look at the value of the choice. For a
  \<open>POST\<close> with error simulation off: if the form has a field \<open>vote\<close> and the queue is
  reachable, an entry with that value, whatever it is, is appended to the queue; the
  request is rejected before the enqueue only if the form has no field \<open>vote\<close>.
\<close>

theorem hello_pushes_any_vote:
  assumes "http_method req = POST" and "\<not> ERROR_SIM_ENABLED s"
  shows "(\<forall>v. form_vote req = Some v \<and> redis_reachable s \<longrightarrow>
            (\<exists>resp. fst (hello getrandbits req s) = Inr resp \<and>
                    redis_votes (snd (hello getrandbits req s)) =
                      redis_votes s @ [Encoded (set_cookie_voter_id resp) v])) \<and>
         (form_vote req = None \<longrightarrow>
            fst (hello getrandbits req s) = Inl BadRequestKeyError \<and>
            redis_votes (snd (hello getrandbits req s)) = redis_votes s)"
  using assms by (auto simp: hello_def Let_def split: option.splits)

theorem hello_pushes_any_vote_witness:
  "http_method \<lparr>http_method = POST, cookie_voter_id = Some ''abc'', form_vote = Some ''zzz''\<rparr> = POST \<and>
   (\<exists>resp. fst (hello 255 \<lparr>http_method = POST, cookie_voter_id = Some ''abc'', form_vote = Some ''zzz''\<rparr>
                  \<lparr>ERROR_SIM_ENABLED = False, redis_reachable = True, redis_votes = [], app_log = []\<rparr>) = Inr resp \<and>
      redis_votes (snd (hello 255 \<lparr>http_method = POST, cookie_voter_id = Some ''abc'', form_vote = Some ''zzz''\<rparr>
                  \<lparr>ERROR_SIM_ENABLED = False, redis_reachable = True, redis_votes = [], app_log = []\<rparr>)) =
        [] @ [Encoded (set_cookie_voter_id resp) ''zzz'']) \<and>
   fst (hello 255 \<lparr>http_method = POST, cookie_voter_id = Some ''abc'', form_vote = None\<rparr>
                  \<lparr>ERROR_SIM_ENABLED = False, redis_reachable = True, redis_votes = [], app_log = []\<rparr>)
     = Inl BadRequestKeyError"
  using hello_pushes_any_vote [of "\<lparr>http_method = POST, cookie_voter_id = Some ''abc'', form_vote = Some ''zzz''\<rparr>"
          "\<lparr>ERROR_SIM_ENABLED = False, redis_reachable = True, redis_votes = [], app_log = []\<rparr>" 255]
        hello_pushes_any_vote [of "\<lparr>http_method = POST, cookie_voter_id = Some ''abc'', form_vote = None\<rparr>"
          "\<lparr>ERROR_SIM_ENABLED = False, redis_reachable = True, redis_votes = [], app_log = []\<rparr>" 255]
  by simp

text \<open>
  Claim C6, as stated, fails: the choice \<open>zzz\<close> is none of the options \<open>a\<close> and \<open>b\<close>,
  and the request that carries it puts an entry on the queue.
\<close>

theorem malformed_choice_is_enqueued_counterexample:
  "''zzz'' \<noteq> ''a'' \<and> ''zzz'' \<noteq> ''b'' \<and>
   redis_votes (snd (hello 255 \<lparr>http_method = POST, cookie_voter_id = Some ''abc'', form_vote = Some ''zzz''\<rparr>
                  \<lparr>ERROR_SIM_ENABLED = False, redis_reachable = True, redis_votes = [], app_log = []\<rparr>))
     = [Encoded ''abc'' ''zzz'']"
  by (simp add: hello_def Let_def)

end
